theory Spec2Isabelle
  imports Main "HOL-Library.Sublist" "HOL-Library.Code_Target_Nat"
begin

section \<open>Data model of jstream.h\<close>

text \<open>
  The encoded buffer is an array of \<^verbatim>\<open>unsigned\<close> (\<^verbatim>\<open>jstream_t\<close>). A word is a natural
  number below \<open>2 ^ 32\<close>; every arithmetic operation the source performs on an
  \<^verbatim>\<open>unsigned\<close> is written with its wrap-around. A byte is a natural number below 256.
  Strings and doubles live in the same words: \<^verbatim>\<open>sizeof(unsigned) = 4\<close>,
  \<^verbatim>\<open>sizeof(double) = 8\<close>, bytes of a word in little-endian order, \<^verbatim>\<open>char\<close> signed.
\<close>

datatype jerror =
    ERR_NONE | ERR_MEMORY | ERR_VALUE | ERR_NULL | ERR_FALSE | ERR_TRUE
  | ERR_NUMBER | ERR_NUMBER_TOO_LONG | ERR_EOS_INSIDE_STRING
  | ERR_COMMA | ERR_COLON | ERR_CLOSED_BRACKET

abbreviation (input) NULL :: nat where "NULL \<equiv> 0"
abbreviation (input) TRUE :: nat where "TRUE \<equiv> 1"
abbreviation (input) FALSE :: nat where "FALSE \<equiv> 2"
abbreviation (input) NUMBER :: nat where "NUMBER \<equiv> 3"
abbreviation (input) STRING :: nat where "STRING \<equiv> 4"
abbreviation (input) ARRAY :: nat where "ARRAY \<equiv> 5"
abbreviation (input) OBJECT :: nat where "OBJECT \<equiv> 6"

text \<open>
  \<^verbatim>\<open>struct jstream_param_s\<close>. The fields \<open>error\<close>, \<open>obj\<close>, \<open>size_w\<close> (\<^verbatim>\<open>p->size\<close>) and
  \<open>clast\<close> are the fields of the C structure; \<open>obj\<close> is \<open>None\<close> for the null pointer and
  otherwise holds the words of the block it points to. The remaining fields are the
  environment the C code reaches through calls:
  \<^item> \<open>stream\<close>: the characters \<^verbatim>\<open>p->get()\<close> is still going to deliver; once exhausted,
    \<^verbatim>\<open>get\<close> answers \<open>-1\<close> (\<^verbatim>\<open>EOF\<close>) for ever;
  \<^item> \<open>allocs\<close>: the outcomes of the coming calls of \<^verbatim>\<open>malloc\<close>/\<^verbatim>\<open>realloc\<close>: \<open>None\<close> is a
    failed call, \<open>Some w\<close> a successful one whose fresh words read as \<open>w\<close>
    (their content is indeterminate in C); once exhausted, every call succeeds
    with fresh words 0;
  \<^item> \<open>live\<close>: the number of words currently held from the allocator;
  \<^item> \<open>strtod_val\<close>: the 64 bits of the double \<^verbatim>\<open>strtod\<close> returns for a text.
\<close>

record jstream_param_s =
  error :: jerror
  obj :: "nat list option"
  size_w :: nat
  clast :: int
  stream :: "int list"
  allocs :: "nat option list"
  live :: nat
  strtod_val :: "nat list \<Rightarrow> nat"

type_synonym 'a result = "(jerror \<times> jstream_param_s) + 'a"

abbreviation (input) ch :: "char \<Rightarrow> int" where "ch c \<equiv> of_char c"

section \<open>The C library as the source uses it\<close>

definition get :: "jstream_param_s \<Rightarrow> int \<times> jstream_param_s" where
  "get p = (case stream p of [] \<Rightarrow> (- 1, p) | c # cs \<Rightarrow> (c, p\<lparr>stream := cs\<rparr>))"

text \<open>Conversion of an \<^verbatim>\<open>int\<close> to \<^verbatim>\<open>char\<close> (its low byte) and back (sign extension).\<close>

definition to_char :: "int \<Rightarrow> nat" where
  "to_char c = nat (c mod 256)"

definition of_schar :: "nat \<Rightarrow> int" where
  "of_schar b = (if b < 128 then int b else int b - 256)"

text \<open>
  \<^verbatim>\<open>strchr(s, c) != NULL\<close>: \<open>c\<close> is converted to \<^verbatim>\<open>char\<close> and searched in \<open>s\<close>, whose
  terminating NUL is part of the string searched.
\<close>

definition strchr :: "nat list \<Rightarrow> int \<Rightarrow> bool" where
  "strchr s c = (to_char c = 0 \<or> to_char c \<in> set s)"

definition ws_chars :: "nat list" where
  "ws_chars = [32, 13, 9, 10]"

definition delim_chars :: "nat list" where
  "delim_chars = [32, 13, 9, 10] @ map of_char '']},:''"

definition num_chars :: "nat list" where
  "num_chars = map of_char ''0123456789.+-eE''"

text \<open>The C string held in a \<^verbatim>\<open>char\<close> array: the bytes before the first NUL.\<close>

definition cstr :: "nat list \<Rightarrow> nat list" where
  "cstr bs = takeWhile (\<lambda>b. b \<noteq> 0) bs"

definition strlen :: "nat list \<Rightarrow> nat" where
  "strlen bs = length (cstr bs)"

text \<open>The four bytes of a word and the word of four bytes.\<close>

definition unpack4 :: "nat \<Rightarrow> nat list" where
  "unpack4 w = [w mod 256, w div 256 mod 256, w div 65536 mod 256, w div 16777216 mod 256]"

fun words_of :: "nat list \<Rightarrow> nat list" where
  "words_of (a # b # c # d # bs) = (a + 256 * b + 65536 * c + 16777216 * d) # words_of bs"
| "words_of bs = []"

definition bytes_of :: "nat list \<Rightarrow> nat list" where
  "bytes_of ws = concat (map unpack4 ws)"

text \<open>
  Writing the bytes \<open>bs\<close> at the word offset \<open>off\<close> of a block (\<^verbatim>\<open>memcpy\<close>, \<^verbatim>\<open>strcpy\<close>):
  the bytes after the written ones keep their content. A block never changes its length:
  what a write outside the block does is undefined in C, and the model drops it, as
  \<open>xs[i := w]\<close> does.
\<close>

definition store_bytes :: "nat list \<Rightarrow> nat \<Rightarrow> nat list \<Rightarrow> nat list" where
  "store_bytes blk off bs =
     take (length blk)
       (take off blk @ words_of (bs @ drop (length bs) (bytes_of (drop off blk))))"

text \<open>The allocator: one outcome of \<open>allocs\<close> per call.\<close>

definition alloc_outcome :: "jstream_param_s \<Rightarrow> nat option \<times> jstream_param_s" where
  "alloc_outcome p = (case allocs p of [] \<Rightarrow> (Some 0, p) | a # as \<Rightarrow> (a, p\<lparr>allocs := as\<rparr>))"

definition malloc :: "jstream_param_s \<Rightarrow> nat \<Rightarrow> nat list option \<times> jstream_param_s" where
  "malloc p n = (case alloc_outcome p of
       (None, p1) \<Rightarrow> (None, p1)
     | (Some w, p1) \<Rightarrow> (Some (replicate n w), p1\<lparr>live := live p1 + n\<rparr>))"

definition realloc :: "jstream_param_s \<Rightarrow> nat list \<Rightarrow> nat \<Rightarrow> nat list option \<times> jstream_param_s" where
  "realloc p blk n = (case alloc_outcome p of
       (None, p1) \<Rightarrow> (None, p1)
     | (Some w, p1) \<Rightarrow>
         (Some (take n blk @ replicate (n - length blk) w),
          p1\<lparr>live := live p1 - length blk + n\<rparr>))"

definition free :: "jstream_param_s \<Rightarrow> nat list \<Rightarrow> jstream_param_s" where
  "free p blk = p\<lparr>live := live p - length blk\<rparr>"

text \<open>
  \<^verbatim>\<open>strtod\<close> on a text whose characters after the first are those the number handler
  accumulates: the number of characters it converts, that is the leading white space
  (\<^verbatim>\<open>isspace\<close>) and the longest prefix of the rest that is a decimal floating literal (sign,
  digits with an optional point, and an exponent when it has a digit); 0 when no conversion
  is done. No such text spells a hexadecimal literal, an infinity or a NaN.
\<close>

definition is_digit :: "nat \<Rightarrow> bool" where
  "is_digit b = (48 \<le> b \<and> b \<le> 57)"

definition is_space :: "nat \<Rightarrow> bool" where
  "is_space b = (b = 32 \<or> (9 \<le> b \<and> b \<le> 13))"

definition strtod_exp :: "nat list \<Rightarrow> nat" where
  "strtod_exp bs = (case bs of
       [] \<Rightarrow> 0
     | e # r \<Rightarrow>
         if e = of_char CHR ''e'' \<or> e = of_char CHR ''E'' then
           (let sg = (case r of [] \<Rightarrow> 0 | s # _ \<Rightarrow>
                        if s = of_char CHR ''+'' \<or> s = of_char CHR ''-'' then 1 else (0::nat));
                ds = length (takeWhile is_digit (drop sg r))
            in if ds = 0 then 0 else 1 + sg + ds)
         else 0)"

definition strtod_end :: "nat list \<Rightarrow> nat" where
  "strtod_end text =
     (let sp = length (takeWhile is_space text);
          bs = drop sp text;
          sg = (case bs of [] \<Rightarrow> 0 | s # _ \<Rightarrow>
                  if s = of_char CHR ''+'' \<or> s = of_char CHR ''-'' then 1 else (0::nat));
          r1 = drop sg bs;
          d1 = length (takeWhile is_digit r1);
          r2 = drop d1 r1;
          pt = (case r2 of [] \<Rightarrow> 0 | c # _ \<Rightarrow> if c = of_char CHR ''.'' then 1 else (0::nat));
          d2 = (if pt = 1 then length (takeWhile is_digit (drop 1 r2)) else 0)
      in if d1 + d2 = 0 then 0
         else sp + sg + d1 + pt + d2 + strtod_exp (drop (d1 + pt + d2) r1))"

section \<open>Private functions of jstream.c\<close>

definition jstream_align :: "nat \<Rightarrow> nat" where
  "jstream_align sz = (if sz mod 4 = 0 then sz div 4 else 1 + sz div 4)"

text \<open>
  \<^verbatim>\<open>jstream_expand\<close> returns the pointer to the new items, here their index in the
  block. \<^verbatim>\<open>longjmp(p->env, e)\<close> is the result \<open>Inl (e, p)\<close> with the state at the jump.
\<close>

definition jstream_expand :: "jstream_param_s \<Rightarrow> nat \<Rightarrow> (nat \<times> jstream_param_s) result" where
  "jstream_expand p n = (case obj p of
       None \<Rightarrow>
         (case malloc p n of
            (None, p1) \<Rightarrow> Inl (ERR_MEMORY, p1\<lparr>obj := None\<rparr>)
          | (Some blk, p1) \<Rightarrow> Inr (0, p1\<lparr>obj := Some blk, size_w := n\<rparr>))
     | Some old \<Rightarrow>
         (let newsize = (size_w p + n) mod 2 ^ 32 in
          case realloc p old newsize of
            (None, p1) \<Rightarrow> Inl (ERR_MEMORY, p1)
          | (Some blk, p1) \<Rightarrow> Inr (size_w p, p1\<lparr>obj := Some blk, size_w := newsize\<rparr>)))"

text \<open>Reading and writing the word \<^verbatim>\<open>p->obj[i]\<close>.\<close>

definition peek :: "jstream_param_s \<Rightarrow> nat \<Rightarrow> nat" where
  "peek p i = (case obj p of None \<Rightarrow> 0 | Some blk \<Rightarrow> blk ! i)"

definition poke :: "jstream_param_s \<Rightarrow> nat \<Rightarrow> nat \<Rightarrow> jstream_param_s" where
  "poke p i w = p\<lparr>obj := map_option (\<lambda>blk. blk[i := w]) (obj p)\<rparr>"

definition poke_bytes :: "jstream_param_s \<Rightarrow> nat \<Rightarrow> nat list \<Rightarrow> jstream_param_s" where
  "poke_bytes p i bs = p\<lparr>obj := map_option (\<lambda>blk. store_bytes blk i bs) (obj p)\<rparr>"

text \<open>
  Every handler below returns \<^verbatim>\<open>p->clast\<close>, directly or as the value of
  \<^verbatim>\<open>jstream_next\<close>; the model returns the state, and a caller that tests the returned
  character tests \<open>clast\<close> of it.
\<close>

function jstream_next :: "jstream_param_s \<Rightarrow> jstream_param_s" where
  "jstream_next p =
     (case get p of (c, p1) \<Rightarrow>
        let p2 = p1\<lparr>clast := c\<rparr> in
        if strchr ws_chars c then jstream_next p2 else p2)"
  by pat_completeness auto
termination
  by (relation "measure (\<lambda>p. length (stream p))")
     (auto simp: get_def strchr_def ws_chars_def to_char_def split: list.splits)


definition jstream_false :: "jstream_param_s \<Rightarrow> jstream_param_s result" where
  "jstream_false p =
     (case get p of (c1, p1) \<Rightarrow>
      if c1 \<noteq> ch CHR ''a'' then Inl (ERR_FALSE, p1) else
      case get p1 of (c2, p2) \<Rightarrow>
      if c2 \<noteq> ch CHR ''l'' then Inl (ERR_FALSE, p2) else
      case get p2 of (c3, p3) \<Rightarrow>
      if c3 \<noteq> ch CHR ''s'' then Inl (ERR_FALSE, p3) else
      case get p3 of (c4, p4) \<Rightarrow>
      if c4 \<noteq> ch CHR ''e'' then Inl (ERR_FALSE, p4) else
      case get p4 of (c5, p5) \<Rightarrow>
      let p6 = p5\<lparr>clast := c5\<rparr> in
      if \<not> strchr delim_chars c5 then Inl (ERR_FALSE, p6) else
      (case jstream_expand p6 1 of
         Inl e \<Rightarrow> Inl e
       | Inr (objnew, p7) \<Rightarrow>
           let p8 = poke p7 objnew FALSE in
           if \<not> strchr ws_chars (clast p8) then Inr p8 else Inr (jstream_next p8)))"

definition jstream_null :: "jstream_param_s \<Rightarrow> jstream_param_s result" where
  "jstream_null p =
     (case get p of (c1, p1) \<Rightarrow>
      if c1 \<noteq> ch CHR ''u'' then Inl (ERR_NULL, p1) else
      case get p1 of (c2, p2) \<Rightarrow>
      if c2 \<noteq> ch CHR ''l'' then Inl (ERR_NULL, p2) else
      case get p2 of (c3, p3) \<Rightarrow>
      if c3 \<noteq> ch CHR ''l'' then Inl (ERR_NULL, p3) else
      case get p3 of (c4, p4) \<Rightarrow>
      let p5 = p4\<lparr>clast := c4\<rparr> in
      if \<not> strchr delim_chars c4 then Inl (ERR_NULL, p5) else
      (case jstream_expand p5 1 of
         Inl e \<Rightarrow> Inl e
       | Inr (objnew, p6) \<Rightarrow>
           let p7 = poke p6 objnew NULL in
           if \<not> strchr ws_chars (clast p7) then Inr p7 else Inr (jstream_next p7)))"

definition jstream_true :: "jstream_param_s \<Rightarrow> jstream_param_s result" where
  "jstream_true p =
     (case get p of (c1, p1) \<Rightarrow>
      if c1 \<noteq> ch CHR ''r'' then Inl (ERR_TRUE, p1) else
      case get p1 of (c2, p2) \<Rightarrow>
      if c2 \<noteq> ch CHR ''u'' then Inl (ERR_TRUE, p2) else
      case get p2 of (c3, p3) \<Rightarrow>
      if c3 \<noteq> ch CHR ''e'' then Inl (ERR_TRUE, p3) else
      case get p3 of (c4, p4) \<Rightarrow>
      let p5 = p4\<lparr>clast := c4\<rparr> in
      if \<not> strchr delim_chars c4 then Inl (ERR_TRUE, p5) else
      (case jstream_expand p5 1 of
         Inl e \<Rightarrow> Inl e
       | Inr (objnew, p6) \<Rightarrow>
           let p7 = poke p6 objnew TRUE in
           if \<not> strchr ws_chars (clast p7) then Inr p7 else Inr (jstream_next p7)))"

text \<open>
  The loop of \<^verbatim>\<open>jstream_number\<close> over \<^verbatim>\<open>static char buf[128]\<close>: \<open>buf\<close> holds the bytes
  \<^verbatim>\<open>buf[0..i-1]\<close>. The character read is stored as a \<^verbatim>\<open>char\<close>, tested and assigned to
  \<^verbatim>\<open>p->clast\<close> from there; on the break \<^verbatim>\<open>buf[i]\<close> becomes the terminating NUL.
  The handler reserves \<^verbatim>\<open>1 + sizeof(double)/sizeof(unsigned)\<close>, that is 3, words.
\<close>

function number_scan ::
  "nat \<Rightarrow> nat list \<Rightarrow> jstream_param_s \<Rightarrow> nat \<times> nat list \<times> jstream_param_s" where
  "number_scan i buf p =
     (if i < 128 then
        (case get p of (c, p1) \<Rightarrow>
           let b = to_char c in
           if \<not> strchr num_chars (of_schar b) then (i, buf, p1\<lparr>clast := of_schar b\<rparr>)
           else number_scan (i + 1) (buf @ [b]) p1)
      else (i, buf, p))"
  by pat_completeness auto
termination
  by (relation "measure (\<lambda>(i, buf, p). 128 - i)") auto

text \<open>
  \<^verbatim>\<open>objnew[0] = NUMBER; *(double*)(objnew + 1) = d;\<close> with \<open>d\<close> the double \<^verbatim>\<open>strtod\<close>
  returns for the text: the low word of its 64 bits first.
\<close>

definition number_store :: "jstream_param_s \<Rightarrow> nat \<Rightarrow> nat list \<Rightarrow> jstream_param_s" where
  "number_store p2 objnew text =
     (let d = strtod_val p2 text mod 2 ^ 64
      in poke (poke (poke p2 objnew NUMBER) (objnew + 1) (d mod 2 ^ 32)) (objnew + 2) (d div 2 ^ 32))"

definition jstream_number :: "jstream_param_s \<Rightarrow> jstream_param_s result" where
  "jstream_number p =
     (case number_scan 1 [to_char (clast p)] p of (i, buf, p1) \<Rightarrow>
      if i = 128 then Inl (ERR_NUMBER_TOO_LONG, p1) else
      let text = cstr buf in
      if strtod_end text \<noteq> length text then Inl (ERR_NUMBER, p1) else
      (case jstream_expand p1 3 of
         Inl e \<Rightarrow> Inl e
       | Inr (objnew, p2) \<Rightarrow>
           let p3 = number_store p2 objnew text
           in if \<not> strchr ws_chars (clast p3) then Inr p3 else Inr (jstream_next p3)))"

text \<open>
  The inner loop of \<^verbatim>\<open>jstream_string\<close> over \<^verbatim>\<open>static char buf[64]\<close>: \<open>buf\<close> holds the
  bytes \<^verbatim>\<open>buf[0..j-1]\<close> written in this round. When \<open>j\<close> has reached 64 no character is
  read.
\<close>

function string_scan ::
  "nat \<Rightarrow> nat list \<Rightarrow> jstream_param_s \<Rightarrow> (nat \<times> nat list \<times> jstream_param_s) result" where
  "string_scan j buf p =
     (if j < 64 then
        (case get p of (c, p1) \<Rightarrow>
           let p2 = p1\<lparr>clast := c\<rparr> in
           if c = ch CHR 0x22 then Inr (j, buf, p2)
           else if c < 0 then Inl (ERR_EOS_INSIDE_STRING, p2)
           else string_scan (j + 1) (buf @ [to_char c]) p2)
      else Inr (j, buf, p))"
  by pat_completeness auto
termination
  by (relation "measure (\<lambda>(j, buf, p). 64 - j)") auto


declare string_scan.simps [simp del] number_scan.simps [simp del] jstream_next.simps [simp del]

lemma stream_expand [simp]:
  "jstream_expand p n = Inr (off, p') \<Longrightarrow> stream p' = stream p"
  by (auto simp: jstream_expand_def malloc_def realloc_def alloc_outcome_def Let_def
           split: option.splits list.splits prod.splits)

lemma stream_poke [simp]: "stream (poke p i w) = stream p"
  by (simp add: poke_def)

lemma stream_poke_bytes [simp]: "stream (poke_bytes p i bs) = stream p"
  by (simp add: poke_bytes_def)

lemma string_scan_stream:
  "string_scan j buf p = Inr (j', buf', p') \<Longrightarrow>
     length (stream p') + (j' - j) \<le> length (stream p) \<and> j \<le> j'"
proof (induction j buf p rule: string_scan.induct)
  case (1 j buf p)
  show ?case
  proof (cases "j < 64")
    case False
    with "1.prems" string_scan.simps[of j buf p] show ?thesis by simp
  next
    case True
    obtain c p1 where g: "get p = (c, p1)" by (cases "get p")
    show ?thesis
    proof (cases "c = 34 \<or> c < 0")
      case True
      with "1.prems" \<open>j < 64\<close> g string_scan.simps[of j buf p] show ?thesis
        by (auto simp: get_def Let_def split: list.splits if_splits)
    next
      case False
      with "1.prems" \<open>j < 64\<close> g string_scan.simps[of j buf p]
      have r: "string_scan (j + 1) (buf @ [to_char c]) (p1\<lparr>clast := c\<rparr>) = Inr (j', buf', p')"
        by (simp add: Let_def)
      from False g have "length (stream p1) < length (stream p)"
        by (auto simp: get_def split: list.splits)
      with "1.IH"[OF \<open>j < 64\<close> g[symmetric] refl _ _ r] False show ?thesis
        by auto
    qed
  qed
qed

function string_loop :: "jstream_param_s \<Rightarrow> (nat list \<times> jstream_param_s) result" where
  "string_loop p =
     (case string_scan 0 [] p of
        Inl e \<Rightarrow> Inl e
      | Inr (j, buf, p1) \<Rightarrow>
          if j < 64 then Inr (buf, p1)
          else (case jstream_expand p1 16 of
                  Inl e \<Rightarrow> Inl e
                | Inr (objnew, p2) \<Rightarrow> string_loop (poke_bytes p2 objnew buf)))"
  by pat_completeness auto
termination
  apply (relation "measure (\<lambda>p. length (stream p))")
   apply simp
  apply (auto dest!: string_scan_stream)
  done


declare string_loop.simps [simp del]

definition jstream_string :: "jstream_param_s \<Rightarrow> jstream_param_s result" where
  "jstream_string p =
     (case jstream_expand p 1 of
        Inl e \<Rightarrow> Inl e
      | Inr (objnew, p1) \<Rightarrow>
          (case string_loop (poke p1 objnew STRING) of
             Inl e \<Rightarrow> Inl e
           | Inr (buf, p2) \<Rightarrow>
               let text = cstr buf in
               (case jstream_expand p2 (jstream_align (length text + 1)) of
                  Inl e \<Rightarrow> Inl e
                | Inr (objnew, p3) \<Rightarrow>
                    Inr (jstream_next (poke_bytes p3 objnew (text @ [0]))))))"

function jstream_value :: "jstream_param_s \<Rightarrow> jstream_param_s result"
  and jstream_array :: "jstream_param_s \<Rightarrow> jstream_param_s result"
  and array_loop :: "nat \<Rightarrow> jstream_param_s \<Rightarrow> jstream_param_s result"
  and jstream_object :: "jstream_param_s \<Rightarrow> jstream_param_s result"
  and object_loop :: "nat \<Rightarrow> jstream_param_s \<Rightarrow> jstream_param_s result"
where
  "jstream_value p =
     (if clast p = ch CHR ''['' then jstream_array p
      else if clast p = ch CHR ''{'' then jstream_object p
      else if clast p = ch CHR 0x22 then jstream_string p
      else if (ch CHR ''0'' \<le> clast p \<and> clast p \<le> ch CHR ''9'') \<or> clast p = ch CHR ''-''
        then jstream_number p
      else if clast p = ch CHR ''f'' then jstream_false p
      else if clast p = ch CHR ''n'' then jstream_null p
      else if clast p = ch CHR ''t'' then jstream_true p
      else Inl (ERR_VALUE, p))"
| "jstream_array p =
     (case jstream_expand p 2 of
        Inl e \<Rightarrow> Inl e
      | Inr (objnew, p1) \<Rightarrow>
          let p2 = poke (poke p1 objnew ARRAY) (objnew + 1) 0;
              ilen = objnew + 1;
              p3 = jstream_next p2
          in if clast p3 \<noteq> ch CHR '']'' then
               (case array_loop ilen p3 of
                  Inl e \<Rightarrow> Inl e
                | Inr p4 \<Rightarrow>
                    if clast p4 \<noteq> ch CHR '']'' then Inl (ERR_CLOSED_BRACKET, p4)
                    else Inr (jstream_next p4))
             else Inr (jstream_next p3))"
| "array_loop ilen p =
     (let p1 = poke p ilen ((peek p ilen + 1) mod 2 ^ 32) in
      case jstream_value p1 of
        Inl e \<Rightarrow> Inl e
      | Inr p2 \<Rightarrow>
          if clast p2 \<noteq> ch CHR '','' then Inr p2
          else array_loop ilen (jstream_next p2))"
| "jstream_object p =
     (case jstream_expand p 2 of
        Inl e \<Rightarrow> Inl e
      | Inr (objnew, p1) \<Rightarrow>
          let p2 = poke (poke p1 objnew OBJECT) (objnew + 1) 0;
              ilen = objnew + 1;
              p3 = jstream_next p2
          in if clast p3 \<noteq> ch CHR ''}'' then
               (case object_loop ilen p3 of
                  Inl e \<Rightarrow> Inl e
                | Inr p4 \<Rightarrow> Inr (jstream_next p4))
             else Inr (jstream_next p3))"
| "object_loop ilen p =
     (let p1 = poke p ilen ((peek p ilen + 1) mod 2 ^ 32) in
      case jstream_value p1 of
        Inl e \<Rightarrow> Inl e
      | Inr p2 \<Rightarrow>
          if clast p2 \<noteq> ch CHR '':'' then Inl (ERR_COLON, p2)
          else (case jstream_value (jstream_next p2) of
                  Inl e \<Rightarrow> Inl e
                | Inr p3 \<Rightarrow>
                    if clast p3 = ch CHR ''}'' then Inr p3
                    else if clast p3 \<noteq> ch CHR '','' then Inl (ERR_COMMA, p3)
                    else object_loop ilen (jstream_next p3)))"
  by pat_completeness auto


definition advances :: "jstream_param_s \<Rightarrow> jstream_param_s \<Rightarrow> bool" where
  "advances p p' \<longleftrightarrow>
     length (stream p') \<le> length (stream p) \<and>
     (clast p' \<noteq> - 1 \<longrightarrow> length (stream p') < length (stream p))"

lemma advances_trans:
  "length (stream q) \<le> length (stream p) \<Longrightarrow> advances q r \<Longrightarrow> advances p r"
  by (auto simp: advances_def)

lemma advances_next: "advances p (jstream_next p)"
proof (induction p rule: jstream_next.induct)
  case (1 p)
  obtain c p1 where g: "get p = (c, p1)" by (cases "get p")
  show ?case
  proof (cases "strchr ws_chars c")
    case True
    with g "1.IH"[OF g[symmetric] refl True] jstream_next.simps[of p]
    show ?thesis
      by (auto simp: advances_def get_def split: list.splits)
  next
    case False
    with g jstream_next.simps[of p] show ?thesis
      by (auto simp: advances_def get_def split: list.splits)
  qed
qed

lemma advances_next': "length (stream q) \<le> length (stream p) \<Longrightarrow> advances p (jstream_next q)"
  using advances_next advances_trans by blast

lemma get_length: "get p = (c, p1) \<Longrightarrow> length (stream p1) \<le> length (stream p)"
  by (auto simp: get_def split: list.splits)

lemma get_length_strict:
  "get p = (c, p1) \<Longrightarrow> c \<noteq> - 1 \<Longrightarrow> length (stream p1) < length (stream p)"
  by (auto simp: get_def split: list.splits)


lemma strchr_eof [simp]: "\<not> strchr delim_chars (- 1)" "\<not> strchr ws_chars (- 1)" "\<not> strchr num_chars (- 1)"
  by (simp_all add: strchr_def delim_chars_def ws_chars_def num_chars_def to_char_def)


lemma expand_frame:
  "jstream_expand p n = Inr (off, p') \<Longrightarrow>
     stream p' = stream p \<and> clast p' = clast p \<and> strtod_val p' = strtod_val p"
  by (auto simp: jstream_expand_def malloc_def realloc_def alloc_outcome_def Let_def
           split: option.splits list.splits prod.splits)

lemma clast_poke [simp]: "clast (poke p i w) = clast p"
  by (simp add: poke_def)

lemma clast_poke_bytes [simp]: "clast (poke_bytes p i bs) = clast p"
  by (simp add: poke_bytes_def)

lemma advances_null: "jstream_null p = Inr p' \<Longrightarrow> advances p p'"
  by (auto simp: jstream_null_def get_def Let_def
      split: list.splits if_splits sum.splits prod.splits
      dest!: expand_frame intro!: advances_next') (auto simp: advances_def)

lemma advances_true: "jstream_true p = Inr p' \<Longrightarrow> advances p p'"
  by (auto simp: jstream_true_def get_def Let_def
      split: list.splits if_splits sum.splits prod.splits
      dest!: expand_frame intro!: advances_next') (auto simp: advances_def)

lemma advances_false: "jstream_false p = Inr p' \<Longrightarrow> advances p p'"
  by (auto simp: jstream_false_def get_def Let_def
      split: list.splits if_splits sum.splits prod.splits
      dest!: expand_frame intro!: advances_next') (auto simp: advances_def)


lemma of_schar_to_char_eof [simp]: "of_schar (to_char (- 1)) = - 1"
  by (simp add: of_schar_def to_char_def)

lemma number_scan_stream:
  "number_scan i buf p = (i', buf', p') \<Longrightarrow>
     length (stream p') \<le> length (stream p) \<and> (i \<le> 128 \<longrightarrow> i' \<le> 128) \<and>
     (i' < 128 \<longrightarrow> clast p' \<noteq> - 1 \<longrightarrow> length (stream p') < length (stream p))"
proof (induction i buf p rule: number_scan.induct)
  case (1 i buf p)
  show ?case
  proof (cases "i < 128")
    case False
    with "1.prems" number_scan.simps[of i buf p] show ?thesis by simp
  next
    case True
    obtain c p1 where g: "get p = (c, p1)" by (cases "get p")
    show ?thesis
    proof (cases "strchr num_chars (of_schar (to_char c))")
      case False
      with "1.prems" True g number_scan.simps[of i buf p] show ?thesis
        by (auto simp: get_def Let_def split: list.splits)
    next
      case sc: True
      with "1.prems" True g number_scan.simps[of i buf p]
      have r: "number_scan (i + 1) (buf @ [to_char c]) p1 = (i', buf', p')"
        by (simp add: Let_def)
      from "1.IH"[OF True g[symmetric] refl _ r] sc get_length[OF g] True show ?thesis
        by auto
    qed
  qed
qed

lemma stream_number_store [simp]: "stream (number_store p i t) = stream p"
  by (simp add: number_store_def Let_def)

lemma clast_number_store [simp]: "clast (number_store p i t) = clast p"
  by (simp add: number_store_def Let_def)

lemma jstream_number_success:
  assumes "jstream_number p = Inr p'"
  obtains i buf p1 objnew p2 where
    "number_scan 1 [to_char (clast p)] p = (i, buf, p1)" "i < 128"
    "strtod_end (cstr buf) = length (cstr buf)"
    "jstream_expand p1 3 = Inr (objnew, p2)"
    "p' = (if strchr ws_chars (clast p1) then jstream_next (number_store p2 objnew (cstr buf))
           else number_store p2 objnew (cstr buf))"
proof -
  obtain i buf p1 where sc: "number_scan 1 [to_char (clast p)] p = (i, buf, p1)"
    by (cases "number_scan 1 [to_char (clast p)] p")
  from number_scan_stream[OF sc] have "i \<le> 128" by simp
  with assms sc have i: "i < 128" and ok: "strtod_end (cstr buf) = length (cstr buf)"
    by (auto simp: jstream_number_def Let_def split: if_splits)
  with assms sc obtain objnew p2 where e: "jstream_expand p1 3 = Inr (objnew, p2)"
    by (auto simp: jstream_number_def Let_def split: sum.splits)
  from assms sc i ok e expand_frame[OF e]
  have "p' = (if strchr ws_chars (clast p1) then jstream_next (number_store p2 objnew (cstr buf))
           else number_store p2 objnew (cstr buf))"
    by (auto simp: jstream_number_def Let_def)
  with sc i ok e show ?thesis by (rule that)
qed

lemma advances_number:
  assumes "jstream_number p = Inr p'"
  shows "advances p p'"
  using assms
proof (rule jstream_number_success)
  fix i buf p1 objnew p2
  assume sc: "number_scan 1 [to_char (clast p)] p = (i, buf, p1)" and i: "i < 128"
    and e: "jstream_expand p1 3 = Inr (objnew, p2)"
    and r: "p' = (if strchr ws_chars (clast p1) then jstream_next (number_store p2 objnew (cstr buf))
           else number_store p2 objnew (cstr buf))"
  from number_scan_stream[OF sc] i expand_frame[OF e] r show ?thesis
    by (auto simp: advances_def intro!: advances_next'[unfolded advances_def, THEN conjunct1]
         advances_next'[unfolded advances_def, THEN conjunct2, rule_format])
qed

lemma string_loop_stream:
  "string_loop p = Inr (buf, p') \<Longrightarrow> length (stream p') \<le> length (stream p)"
proof (induction p rule: string_loop.induct)
  case (1 p)
  from "1.prems" string_loop.simps[of p]
  obtain j b p1 where sc: "string_scan 0 [] p = Inr (j, b, p1)"
    by (auto split: sum.splits)
  show ?case
  proof (cases "j < 64")
    case True
    with "1.prems" sc string_loop.simps[of p] string_scan_stream[OF sc] show ?thesis by auto
  next
    case False
    with "1.prems" sc string_loop.simps[of p]
    obtain objnew p2 where e: "jstream_expand p1 16 = Inr (objnew, p2)"
      and r: "string_loop (poke_bytes p2 objnew b) = Inr (buf, p')"
      by (auto split: sum.splits)
    from "1.IH"[OF sc refl refl False e refl r] expand_frame[OF e] string_scan_stream[OF sc]
    show ?thesis by simp
  qed
qed

lemma advances_string:
  assumes "jstream_string p = Inr p'"
  shows "advances p p'"
proof -
  from assms obtain objnew p1 where e1: "jstream_expand p 1 = Inr (objnew, p1)"
    by (auto simp: jstream_string_def split: sum.splits)
  with assms obtain buf p2 where l: "string_loop (poke p1 objnew STRING) = Inr (buf, p2)"
    by (auto simp: jstream_string_def split: sum.splits)
  with assms e1 obtain objnew2 p3 where
    e2: "jstream_expand p2 (jstream_align (length (cstr buf) + 1)) = Inr (objnew2, p3)"
    and r: "p' = jstream_next (poke_bytes p3 objnew2 (cstr buf @ [0]))"
    by (auto simp: jstream_string_def Let_def split: sum.splits)
  from expand_frame[OF e1] string_loop_stream[OF l] expand_frame[OF e2]
  have "length (stream (poke_bytes p3 objnew2 (cstr buf @ [0]))) \<le> length (stream p)"
    by simp
  with r show ?thesis by (simp add: advances_next')
qed


lemma advances_value_dom:
  assumes "jstream_value_jstream_array_array_loop_jstream_object_object_loop_dom (Inl (Inl p))"
  shows "\<forall>p'. jstream_value p = Inr p' \<longrightarrow> advances p p'"
  using assms
proof (rule jstream_value_jstream_array_array_loop_jstream_object_object_loop.pinduct(1)
    [where ?P1.0 = "\<lambda>p. \<forall>p'. jstream_value p = Inr p' \<longrightarrow> advances p p'"
       and ?P2.0 = "\<lambda>p. \<forall>p'. jstream_array p = Inr p' \<longrightarrow> advances p p'"
       and ?P3.0 = "\<lambda>ilen p. \<forall>p'. array_loop ilen p = Inr p' \<longrightarrow> advances p p'"
       and ?P4.0 = "\<lambda>p. \<forall>p'. jstream_object p = Inr p' \<longrightarrow> advances p p'"
       and ?P5.0 = "\<lambda>ilen p. \<forall>p'. object_loop ilen p = Inr p' \<longrightarrow> advances p p'"],
    goal_cases)
  case (1 p)
  then show ?case
    by (auto simp: jstream_value.psimps advances_string advances_number advances_false
        advances_null advances_true split: if_splits)
next
  case (2 p)
  show ?case
  proof (intro allI impI)
    fix p' assume a: "jstream_array p = Inr p'"
    with 2(1) obtain objnew p1 where e: "jstream_expand p 2 = Inr (objnew, p1)"
      by (auto simp: jstream_array.psimps split: sum.splits)
    define p3 where "p3 = jstream_next (poke (poke p1 objnew ARRAY) (objnew + 1) 0)"
    have l3: "length (stream p3) \<le> length (stream p)"
      using advances_next[of "poke (poke p1 objnew ARRAY) (objnew + 1) 0"] expand_frame[OF e]
      by (simp add: p3_def advances_def)
    show "advances p p'"
    proof (cases "clast p3 = ch CHR '']''")
      case True
      with a 2(1) e have "p' = jstream_next p3"
        by (simp add: jstream_array.psimps Let_def p3_def)
      with l3 show ?thesis by (simp add: advances_next')
    next
      case False
      with a 2(1) e obtain p4 where l: "array_loop (objnew + 1) p3 = Inr p4"
        and r: "p' = jstream_next p4"
        by (auto simp: jstream_array.psimps Let_def p3_def split: sum.splits if_splits)
      from 2(2)[OF e refl refl refl p3_def False] l have "advances p3 p4"
        by (simp add: p3_def)
      with l3 r show ?thesis
        by (auto simp: advances_def intro!: advances_next'[unfolded advances_def, THEN conjunct1]
         advances_next'[unfolded advances_def, THEN conjunct2, rule_format])
    qed
  qed
next
  case (3 ilen p)
  show ?case
  proof (intro allI impI)
    fix p' assume a: "array_loop ilen p = Inr p'"
    define p1 where "p1 = poke p ilen ((peek p ilen + 1) mod 2 ^ 32)"
    from a 3(1) obtain p2 where v: "jstream_value p1 = Inr p2"
      by (auto simp: array_loop.psimps Let_def p1_def split: sum.splits)
    from 3(2)[OF p1_def] v have adv: "advances p1 p2" by simp
    show "advances p p'"
    proof (cases "clast p2 = ch CHR '',''")
      case False
      with a 3(1) v have "p' = p2" by (simp add: array_loop.psimps Let_def p1_def)
      with adv show ?thesis by (simp add: advances_def p1_def)
    next
      case True
      with a 3(1) v have r: "array_loop ilen (jstream_next p2) = Inr p'"
        by (simp add: array_loop.psimps Let_def p1_def)
      from 3(3)[OF p1_def v] True r have "advances (jstream_next p2) p'" by simp
      moreover have "length (stream (jstream_next p2)) \<le> length (stream p)"
        using adv advances_next[of p2] by (simp add: advances_def p1_def)
      ultimately show ?thesis by (rule advances_trans[rotated])
    qed
  qed
next
  case (4 p)
  show ?case
  proof (intro allI impI)
    fix p' assume a: "jstream_object p = Inr p'"
    with 4(1) obtain objnew p1 where e: "jstream_expand p 2 = Inr (objnew, p1)"
      by (auto simp: jstream_object.psimps split: sum.splits)
    define p3 where "p3 = jstream_next (poke (poke p1 objnew OBJECT) (objnew + 1) 0)"
    have l3: "length (stream p3) \<le> length (stream p)"
      using advances_next[of "poke (poke p1 objnew OBJECT) (objnew + 1) 0"] expand_frame[OF e]
      by (simp add: p3_def advances_def)
    show "advances p p'"
    proof (cases "clast p3 = ch CHR ''}''")
      case True
      with a 4(1) e have "p' = jstream_next p3"
        by (simp add: jstream_object.psimps Let_def p3_def)
      with l3 show ?thesis by (simp add: advances_next')
    next
      case False
      with a 4(1) e obtain p4 where l: "object_loop (objnew + 1) p3 = Inr p4"
        and r: "p' = jstream_next p4"
        by (auto simp: jstream_object.psimps Let_def p3_def split: sum.splits if_splits)
      from 4(2)[OF e refl refl refl p3_def False] l have "advances p3 p4"
        by (simp add: p3_def)
      with l3 r show ?thesis
        by (auto simp: advances_def intro!: advances_next'[unfolded advances_def, THEN conjunct1]
         advances_next'[unfolded advances_def, THEN conjunct2, rule_format])
    qed
  qed
next
  case (5 ilen p)
  show ?case
  proof (intro allI impI)
    fix p' assume a: "object_loop ilen p = Inr p'"
    define p1 where "p1 = poke p ilen ((peek p ilen + 1) mod 2 ^ 32)"
    from a 5(1) obtain p2 where v: "jstream_value p1 = Inr p2"
      by (auto simp: object_loop.psimps Let_def p1_def split: sum.splits)
    from 5(2)[OF p1_def] v have adv: "advances p1 p2" by simp
    from a 5(1) v have c: "clast p2 = ch CHR '':''"
      by (auto simp: object_loop.psimps Let_def p1_def split: if_splits)
    with a 5(1) v obtain p3 where v2: "jstream_value (jstream_next p2) = Inr p3"
      by (auto simp: object_loop.psimps Let_def p1_def split: sum.splits)
    from 5(3)[OF p1_def v] c v2 have adv2: "advances (jstream_next p2) p3" by simp
    have l2: "length (stream (jstream_next p2)) \<le> length (stream p)"
      using adv advances_next[of p2] by (simp add: advances_def p1_def)
    have adv3: "advances p p3" using adv2 l2 by (rule advances_trans[rotated])
    show "advances p p'"
    proof (cases "clast p3 = ch CHR ''}''")
      case True
      with a 5(1) v c v2 have "p' = p3" by (simp add: object_loop.psimps Let_def p1_def)
      with adv3 show ?thesis by simp
    next
      case False
      with a 5(1) v c v2 have c3: "clast p3 = ch CHR '',''"
        and r: "object_loop ilen (jstream_next p3) = Inr p'"
        by (auto simp: object_loop.psimps Let_def p1_def split: if_splits)
      from 5(4)[OF p1_def v _ v2] c False c3 r have "advances (jstream_next p3) p'" by simp
      moreover have "length (stream (jstream_next p3)) \<le> length (stream p)"
        using adv3 advances_next[of p3] by (simp add: advances_def)
      ultimately show ?thesis by (rule advances_trans[rotated])
    qed
  qed
qed


definition parse_measure ::
  "(jstream_param_s + jstream_param_s) +
   nat \<times> jstream_param_s + jstream_param_s + nat \<times> jstream_param_s \<Rightarrow> nat" where
  "parse_measure x = (case x of
      Inl (Inl p) \<Rightarrow> 5 * length (stream p) + (if clast p = 91 \<or> clast p = 123 then 3 else 0)
    | Inl (Inr p) \<Rightarrow> 5 * length (stream p) + 2
    | Inr (Inl (ilen, p)) \<Rightarrow>
        5 * length (stream p) + (if clast p = 91 \<or> clast p = 123 then 4 else 1)
    | Inr (Inr (Inl p)) \<Rightarrow> 5 * length (stream p) + 2
    | Inr (Inr (Inr (ilen, p))) \<Rightarrow>
        5 * length (stream p) + (if clast p = 91 \<or> clast p = 123 then 4 else 1))"

lemma advances_measure:
  assumes "advances p q"
  shows "5 * length (stream q) + (if clast q = 91 \<or> clast q = 123 then 4 else 1)
         < 5 * length (stream p) + 2"
proof (cases "clast q = - 1")
  case True
  with assms show ?thesis by (simp add: advances_def)
next
  case False
  with assms have "length (stream q) < length (stream p)" by (simp add: advances_def)
  then show ?thesis by simp
qed

termination jstream_value
proof (relation "measure parse_measure", goal_cases)
  case 1
  show ?case by simp
next
  case (2 p)
  then show ?case by (simp add: parse_measure_def)
next
  case (3 p)
  then show ?case by (simp add: parse_measure_def)
next
  case (4 p b x y xa xb xc)
  from 4(1,2) have "stream y = stream p" using expand_frame[of p 2 x y] by simp
  with 4(3) have "stream xa = stream p" by simp
  with advances_next[of xa] have "advances p xc" by (simp add: advances_def 4(5))
  from advances_measure[OF this] show ?case by (simp add: parse_measure_def)
next
  case (5 ilen p x)
  then show ?case by (simp add: parse_measure_def)
next
  case (6 ilen p x b)
  from advances_value_dom[OF 6(4)] 6(2) have a: "advances x b" by simp
  from 6(3) have "clast b \<noteq> - 1" by simp
  with a have "length (stream b) < length (stream x)" by (simp add: advances_def)
  moreover have "length (stream (jstream_next b)) \<le> length (stream b)"
    using advances_next[of b] by (simp add: advances_def)
  moreover have "stream x = stream p" by (simp add: 6(1))
  ultimately have "length (stream (jstream_next b)) < length (stream p)" by simp
  then show ?case by (simp add: parse_measure_def)
next
  case (7 p b x y xa xb xc)
  from 7(1,2) have "stream y = stream p" using expand_frame[of p 2 x y] by simp
  with 7(3) have "stream xa = stream p" by simp
  with advances_next[of xa] have "advances p xc" by (simp add: advances_def 7(5))
  from advances_measure[OF this] show ?case by (simp add: parse_measure_def)
next
  case (8 ilen p x)
  then show ?case by (simp add: parse_measure_def)
next
  case (9 ilen p x b)
  from advances_value_dom[OF 9(4)] 9(2) have a: "advances x b" by simp
  from 9(3) have "clast b \<noteq> - 1" by simp
  with a have "length (stream b) < length (stream x)" by (simp add: advances_def)
  moreover have "length (stream (jstream_next b)) \<le> length (stream b)"
    using advances_next[of b] by (simp add: advances_def)
  moreover have "stream x = stream p" by (simp add: 9(1))
  ultimately have "length (stream (jstream_next b)) < length (stream p)" by simp
  then show ?case by (simp add: parse_measure_def)
next
  case (10 ilen p x b ba)
  from advances_value_dom[OF 10(8)] 10(2) have a: "advances x b" by simp
  from advances_value_dom[OF 10(7)] 10(4) have a2: "advances (jstream_next b) ba" by simp
  from 10(6) have "clast ba \<noteq> - 1" by simp
  with a2 have "length (stream ba) < length (stream (jstream_next b))"
    by (simp add: advances_def)
  moreover have "length (stream (jstream_next b)) \<le> length (stream b)"
    using advances_next[of b] by (simp add: advances_def)
  moreover have "length (stream (jstream_next ba)) \<le> length (stream ba)"
    using advances_next[of ba] by (simp add: advances_def)
  moreover have "length (stream b) \<le> length (stream x)" using a by (simp add: advances_def)
  moreover have "stream x = stream p" by (simp add: 10(1))
  ultimately have "length (stream (jstream_next ba)) < length (stream p)" by simp
  then show ?case by (simp add: parse_measure_def)
qed

declare jstream_value.simps [simp del] jstream_array.simps [simp del] array_loop.simps [simp del]
  jstream_object.simps [simp del] object_loop.simps [simp del]

section \<open>Public functions of jstream.c\<close>

text \<open>
  \<^verbatim>\<open>jstream\<close>: the result is the pointer returned and the structure \<^verbatim>\<open>*p\<close> as the call
  leaves it. \<^verbatim>\<open>setjmp\<close> returns \<^verbatim>\<open>ERR_NONE\<close> first and the code of the jump afterwards.
\<close>

definition jstream :: "jstream_param_s \<Rightarrow> nat list option \<times> jstream_param_s" where
  "jstream p =
     (let p0 = p\<lparr>obj := None, size_w := 0, clast := - 1, error := ERR_NONE\<rparr> in
      case jstream_value (jstream_next p0) of
        Inr p1 \<Rightarrow> (obj p1, p1)
      | Inl (e, p1) \<Rightarrow>
          let p2 = p1\<lparr>error := e\<rparr>;
              p3 = (case obj p2 of None \<Rightarrow> p2 | Some blk \<Rightarrow> (free p2 blk)\<lparr>obj := None\<rparr>)
          in (None, p3))"

text \<open>A structure whose \<^verbatim>\<open>get\<close> reads the given text, with an allocator that never fails.\<close>

definition reading :: "string \<Rightarrow> jstream_param_s" where
  "reading s = \<lparr>error = ERR_NONE, obj = None, size_w = 0, clast = 0,
     stream = map of_char s, allocs = [], live = 0, strtod_val = (\<lambda>_. 0)\<rparr>"

section \<open>Stepping lemmas\<close>


lemma get_Cons: "stream p = c # cs \<Longrightarrow> get p = (c, p\<lparr>stream := cs\<rparr>)"
  by (simp add: get_def)

lemma get_Nil: "stream p = [] \<Longrightarrow> get p = (- 1, p)"
  by (simp add: get_def)

lemma jstream_next_clast [simp]: "jstream_next (p\<lparr>clast := c\<rparr>) = jstream_next p"
  by (subst (1 2) jstream_next.simps) (simp add: get_def split: list.splits)

lemma jstream_next_ws:
  "stream p = c # cs \<Longrightarrow> strchr ws_chars c \<Longrightarrow> jstream_next p = jstream_next (p\<lparr>stream := cs\<rparr>)"
  by (subst jstream_next.simps) (simp add: get_def)

lemma jstream_next_stop:
  "stream p = c # cs \<Longrightarrow> \<not> strchr ws_chars c \<Longrightarrow> jstream_next p = p\<lparr>stream := cs, clast := c\<rparr>"
  by (subst jstream_next.simps) (simp add: get_def)

lemma jstream_next_eof:
  "stream p = [] \<Longrightarrow> jstream_next p = p\<lparr>clast := - 1\<rparr>"
  by (subst jstream_next.simps) (simp add: get_def)

lemma strchr_nul [simp]: "strchr s 0"
  by (simp add: strchr_def to_char_def)

definition fresh :: "jstream_param_s \<Rightarrow> nat" where
  "fresh p = (case allocs p of Some w # _ \<Rightarrow> w | _ \<Rightarrow> 0)"

lemma notin_set_tl: "x \<notin> set xs \<Longrightarrow> x \<notin> set (tl xs)"
  by (cases xs) auto

lemma alloc_outcome_ok:
  assumes "None \<notin> set (allocs p)"
  shows "alloc_outcome p = (Some (fresh p), p\<lparr>allocs := tl (allocs p)\<rparr>)"
proof (cases "allocs p")
  case Nil
  then show ?thesis by (simp add: alloc_outcome_def fresh_def)
next
  case (Cons a as)
  with assms show ?thesis by (cases a) (auto simp: alloc_outcome_def fresh_def)
qed

lemma expand_ok_None:
  "None \<notin> set (allocs p) \<Longrightarrow> obj p = None \<Longrightarrow>
   jstream_expand p n =
     Inr (0, p\<lparr>allocs := tl (allocs p), live := live p + n,
                obj := Some (replicate n (fresh p)), size_w := n\<rparr>)"
  by (simp add: jstream_expand_def malloc_def alloc_outcome_ok)

lemma expand_ok_Some:
  "None \<notin> set (allocs p) \<Longrightarrow> obj p = Some old \<Longrightarrow>
   jstream_expand p n =
     Inr (size_w p, p\<lparr>allocs := tl (allocs p),
                live := live p - length old + (size_w p + n) mod 2 ^ 32,
                obj := Some (take ((size_w p + n) mod 2 ^ 32) old @
                             replicate ((size_w p + n) mod 2 ^ 32 - length old) (fresh p)),
                size_w := (size_w p + n) mod 2 ^ 32\<rparr>)"
  by (simp add: jstream_expand_def realloc_def alloc_outcome_ok Let_def)

section \<open>Error locality: a trailing comma\<close>

lemma run_trailing_comma:
  "(case jstream (reading ''[1,2,]'') of (r, p') \<Rightarrow> r = None \<and> error p' = ERR_VALUE)"
  by code_simp

text \<open>
  Claim C5, as stated: parsing \<^verbatim>\<open>[1,2,]\<close> fails with \<open>ERR_CLOSED_BRACKET\<close>. It does not: after
  the second comma \<^verbatim>\<open>jstream_array\<close> calls \<^verbatim>\<open>jstream_value\<close> on \<^verbatim>\<open>]\<close>, which jumps with
  \<open>ERR_VALUE\<close> before the closing bracket is ever tested.
\<close>

theorem trailing_comma_not_closed_bracket:
  "error (snd (jstream (reading ''[1,2,]''))) \<noteq> ERR_CLOSED_BRACKET"
  using run_trailing_comma by (cases "jstream (reading ''[1,2,]'')") simp

text \<open>
  Claim C5, amended: parsing \<^verbatim>\<open>[1,2,]\<close> fails with \<open>ERR_VALUE\<close> and returns no buffer; no
  2-element array is produced.
\<close>

theorem trailing_comma_error_value:
  "fst (jstream (reading ''[1,2,]'')) = None \<and>
   error (snd (jstream (reading ''[1,2,]''))) = ERR_VALUE"
  using run_trailing_comma by (cases "jstream (reading ''[1,2,]'')") simp

theorem trailing_comma_error_value_witness:
  "fst (jstream (reading ''[1,2,]'')) = None"
  using trailing_comma_error_value by simp

section \<open>The character after a literal\<close>

lemma run_null_eof:
  "(case jstream (reading ''null'') of (r, p') \<Rightarrow> r = None \<and> error p' = ERR_NULL \<and> clast p' = - 1)"
  by code_simp

lemma run_true_eof:
  "(case jstream (reading ''true'') of (r, p') \<Rightarrow> r = None \<and> error p' = ERR_TRUE \<and> clast p' = - 1)"
  by code_simp

lemma run_false_eof:
  "(case jstream (reading ''false'') of (r, p') \<Rightarrow> r = None \<and> error p' = ERR_FALSE \<and> clast p' = - 1)"
  by code_simp

text \<open>
  Claim C6 at its failing input: a literal followed by the end of the input. \<^verbatim>\<open>strchr\<close> does
  not find the character \<^verbatim>\<open>EOF\<close> among the accepted followers, so each literal handler
  jumps with its own error code and \<^verbatim>\<open>jstream\<close> returns no buffer.
\<close>

theorem literal_at_eof_rejected:
  "fst (jstream (reading ''null'')) = None \<and> error (snd (jstream (reading ''null''))) = ERR_NULL \<and>
   fst (jstream (reading ''true'')) = None \<and> error (snd (jstream (reading ''true''))) = ERR_TRUE \<and>
   fst (jstream (reading ''false'')) = None \<and> error (snd (jstream (reading ''false''))) = ERR_FALSE"
  using run_null_eof run_true_eof run_false_eof
  by (cases "jstream (reading ''null'')", cases "jstream (reading ''true'')",
      cases "jstream (reading ''false'')") simp

theorem literal_at_eof_rejected_witness:
  "error (snd (jstream (reading ''null''))) = ERR_NULL"
  using literal_at_eof_rejected by simp

section \<open>NUL as whitespace\<close>

text \<open>
  Claim C10: a NUL delivered by the source is whitespace to the parser. \<^verbatim>\<open>jstream_next\<close>
  discards it, and each literal handler accepts it after the literal (only the allocation
  can still fail) and goes on skipping whitespace from there.
\<close>

theorem nul_is_whitespace:
  "jstream_next (p\<lparr>stream := 0 # r\<rparr>) = jstream_next (p\<lparr>stream := r\<rparr>)
   \<and> jstream_null (p\<lparr>stream := map of_char ''ull'' @ 0 # r\<rparr>) =
       (case jstream_expand (p\<lparr>stream := r, clast := 0\<rparr>) 1 of
          Inl e \<Rightarrow> Inl e
        | Inr (objnew, p6) \<Rightarrow> Inr (jstream_next (poke p6 objnew NULL)))
   \<and> jstream_true (p\<lparr>stream := map of_char ''rue'' @ 0 # r\<rparr>) =
       (case jstream_expand (p\<lparr>stream := r, clast := 0\<rparr>) 1 of
          Inl e \<Rightarrow> Inl e
        | Inr (objnew, p6) \<Rightarrow> Inr (jstream_next (poke p6 objnew TRUE)))
   \<and> jstream_false (p\<lparr>stream := map of_char ''alse'' @ 0 # r\<rparr>) =
       (case jstream_expand (p\<lparr>stream := r, clast := 0\<rparr>) 1 of
          Inl e \<Rightarrow> Inl e
        | Inr (objnew, p6) \<Rightarrow> Inr (jstream_next (poke p6 objnew FALSE)))"
proof (intro conjI)
  show "jstream_next (p\<lparr>stream := 0 # r\<rparr>) = jstream_next (p\<lparr>stream := r\<rparr>)"
    by (simp add: jstream_next_ws[of _ 0 r])
  show "jstream_null (p\<lparr>stream := map of_char ''ull'' @ 0 # r\<rparr>) =
       (case jstream_expand (p\<lparr>stream := r, clast := 0\<rparr>) 1 of
          Inl e \<Rightarrow> Inl e
        | Inr (objnew, p6) \<Rightarrow> Inr (jstream_next (poke p6 objnew NULL)))"
    by (auto simp: jstream_null_def get_def Let_def split: sum.splits prod.splits dest: expand_frame)
  show "jstream_true (p\<lparr>stream := map of_char ''rue'' @ 0 # r\<rparr>) =
       (case jstream_expand (p\<lparr>stream := r, clast := 0\<rparr>) 1 of
          Inl e \<Rightarrow> Inl e
        | Inr (objnew, p6) \<Rightarrow> Inr (jstream_next (poke p6 objnew TRUE)))"
    by (auto simp: jstream_true_def get_def Let_def split: sum.splits prod.splits dest: expand_frame)
  show "jstream_false (p\<lparr>stream := map of_char ''alse'' @ 0 # r\<rparr>) =
       (case jstream_expand (p\<lparr>stream := r, clast := 0\<rparr>) 1 of
          Inl e \<Rightarrow> Inl e
        | Inr (objnew, p6) \<Rightarrow> Inr (jstream_next (poke p6 objnew FALSE)))"
    by (auto simp: jstream_false_def get_def Let_def split: sum.splits prod.splits dest: expand_frame)
qed

theorem nul_is_whitespace_witness:
  "jstream_next ((reading '''')\<lparr>stream := [0, 44]\<rparr>) = jstream_next ((reading '''')\<lparr>stream := [44]\<rparr>) \<and>
   clast (jstream_next ((reading '''')\<lparr>stream := [0, 44]\<rparr>)) = 44"
  using nul_is_whitespace[where p = "reading ''''" and r = "[44]"]
  by (simp add: jstream_next_stop[of _ 44 "[]"] strchr_def ws_chars_def to_char_def)

section \<open>What a handler leaves unchanged\<close>

definition held :: "jstream_param_s \<Rightarrow> nat" where
  "held p = (case obj p of None \<Rightarrow> 0 | Some blk \<Rightarrow> length blk)"

definition frame :: "jstream_param_s \<Rightarrow> jstream_param_s \<Rightarrow> bool" where
  "frame p q \<longleftrightarrow>
     suffix (stream q) (stream p) \<and> set (allocs q) \<subseteq> set (allocs p) \<and>
     strtod_val q = strtod_val p \<and> error q = error p \<and>
     (held p \<le> live p \<longrightarrow> held q \<le> live q \<and> live q + held p = live p + held q) \<and>
     (size_w p = held p \<longrightarrow> size_w q = held q) \<and>
     (obj p \<noteq> None \<longrightarrow> obj q \<noteq> None)"

definition final :: "jstream_param_s result \<Rightarrow> jstream_param_s" where
  "final r = (case r of Inl (e, p') \<Rightarrow> p' | Inr p' \<Rightarrow> p')"

definition sound :: "'a result \<Rightarrow> bool" where
  "sound r = (case r of Inl (e, p') \<Rightarrow> e \<noteq> ERR_NONE | Inr x \<Rightarrow> True)"

lemma final_simps [simp]: "final (Inl (e, p)) = p" "final (Inr p) = p"
  by (simp_all add: final_def)

lemma sound_simps [simp]: "sound (Inl (e, p)) = (e \<noteq> ERR_NONE)" "sound (Inr x)"
  by (simp_all add: sound_def)

lemma frame_refl [simp]: "frame p p"
  by (simp add: frame_def)

lemma frame_trans:
  assumes "frame p q" "frame q r"
  shows "frame p r"
proof -
  have a: "held p \<le> live p \<longrightarrow> held r \<le> live r \<and> live r + held p = live p + held r"
    using assms unfolding frame_def by linarith
  have b: "suffix (stream r) (stream p)" "set (allocs r) \<subseteq> set (allocs p)"
    using assms unfolding frame_def by (blast intro: suffix_order.trans)+
  have c: "strtod_val r = strtod_val p" "error r = error p"
    "size_w p = held p \<longrightarrow> size_w r = held r" "obj p \<noteq> None \<longrightarrow> obj r \<noteq> None"
    using assms unfolding frame_def by simp_all
  from a b c show ?thesis unfolding frame_def by blast
qed

lemma length_words_of: "length (words_of bs) = length bs div 4"
  by (induction bs rule: words_of.induct) simp_all

lemma length_bytes_of [simp]: "length (bytes_of ws) = 4 * length ws"
  by (induction ws) (simp_all add: bytes_of_def unpack4_def)

lemma length_store_bytes [simp]: "length (store_bytes blk off bs) = length blk"
proof -
  have "length blk - off \<le> (length bs + (4 * (length blk - off) - length bs)) div 4"
    by presburger
  then show ?thesis
    by (simp add: store_bytes_def length_words_of min_def)
qed

lemma held_poke [simp]: "held (poke p i w) = held p"
  by (cases "obj p") (simp_all add: held_def poke_def)

lemma held_poke_bytes [simp]: "held (poke_bytes p i bs) = held p"
  by (cases "obj p") (simp_all add: held_def poke_bytes_def)

lemma frame_get: "get p = (c, q) \<Longrightarrow> frame p q"
  by (auto simp: get_def frame_def held_def suffix_Cons split: list.splits)

lemma frame_clast [simp]:
  "frame p (q\<lparr>clast := c\<rparr>) = frame p q" "frame (p\<lparr>clast := c\<rparr>) q = frame p q"
  by (simp_all add: frame_def held_def)

lemma frame_poke [simp]: "frame p (poke q i w) = frame p q" "frame (poke q i w) p = frame q p"
  by (cases "obj q"; simp add: frame_def poke_def held_def)+

lemma frame_poke_bytes [simp]:
  "frame p (poke_bytes q i w) = frame p q" "frame (poke_bytes q i w) p = frame q p"
  by (cases "obj q"; simp add: frame_def poke_bytes_def held_def)+

lemma frame_number_store [simp]:
  "frame p (number_store q i t) = frame p q" "frame (number_store q i t) p = frame q p"
  by (simp_all add: number_store_def Let_def)

lemma alloc_outcome_cases:
  obtains (fail) q where "alloc_outcome p = (None, q)" "stream q = stream p" "strtod_val q = strtod_val p"
      "error q = error p" "obj q = obj p" "size_w q = size_w p" "live q = live p" "clast q = clast p"
      "set (allocs q) \<subseteq> set (allocs p)"
  | (ok) w q where "alloc_outcome p = (Some w, q)" "stream q = stream p" "strtod_val q = strtod_val p"
      "error q = error p" "obj q = obj p" "size_w q = size_w p" "live q = live p" "clast q = clast p"
      "set (allocs q) \<subseteq> set (allocs p)"
proof (cases "allocs p")
  case Nil
  then have "alloc_outcome p = (Some 0, p)" by (simp add: alloc_outcome_def)
  then show ?thesis by (rule ok) simp_all
next
  case (Cons a as)
  then have e: "alloc_outcome p = (a, p\<lparr>allocs := as\<rparr>)" by (simp add: alloc_outcome_def)
  show ?thesis
  proof (cases a)
    case None
    with e Cons show ?thesis by (intro fail[of "p\<lparr>allocs := as\<rparr>"]) auto
  next
    case (Some w)
    with e Cons show ?thesis by (intro ok[of w "p\<lparr>allocs := as\<rparr>"]) auto
  qed
qed

lemma frame_expand_both:
  "(jstream_expand p n = Inr (off, q) \<longrightarrow> frame p q \<and> clast q = clast p) \<and>
   (jstream_expand p n = Inl (e, q) \<longrightarrow> frame p q \<and> clast q = clast p \<and> e = ERR_MEMORY)"
proof (cases p rule: alloc_outcome_cases)
  case (fail p1)
  then show ?thesis
    by (cases "obj p")
       (auto simp: jstream_expand_def malloc_def realloc_def Let_def frame_def held_def)
next
  case (ok w p1)
  then show ?thesis
    by (cases "obj p")
       (auto simp: jstream_expand_def malloc_def realloc_def Let_def frame_def held_def)
qed

lemma frame_expand: "jstream_expand p n = Inr (off, q) \<Longrightarrow> frame p q"
  using frame_expand_both by blast

lemma frame_expand_fail: "jstream_expand p n = Inl (e, q) \<Longrightarrow> frame p q \<and> e = ERR_MEMORY"
  using frame_expand_both by blast

lemma frame_next: "frame p (jstream_next p)"
proof (induction p rule: jstream_next.induct)
  case (1 p)
  obtain c p1 where g: "get p = (c, p1)" by (cases "get p")
  have s: "frame p (p1\<lparr>clast := c\<rparr>)" using frame_get[OF g] by simp
  show ?case
  proof (cases "strchr ws_chars c")
    case True
    with g "1.IH"[OF g[symmetric] refl True] jstream_next.simps[of p] s
    show ?thesis by (auto intro: frame_trans)
  next
    case False
    with g s jstream_next.simps[of p] show ?thesis by simp
  qed
qed

lemma frame_next': "frame p q \<Longrightarrow> frame p (jstream_next q)"
  using frame_next frame_trans by blast

lemma frame_null: "frame p (final (jstream_null p)) \<and> sound (jstream_null p)"
proof -
  obtain c1 p1 where g1: "get p = (c1, p1)" by (cases "get p")
  have f1: "frame p p1" by (rule frame_get[OF g1])
  obtain c2 p2 where g2: "get p1 = (c2, p2)" by (cases "get p1")
  have f2: "frame p p2" by (rule frame_trans[OF f1 frame_get[OF g2]])
  obtain c3 p3 where g3: "get p2 = (c3, p3)" by (cases "get p2")
  have f3: "frame p p3" by (rule frame_trans[OF f2 frame_get[OF g3]])
  obtain c4 p4 where g4: "get p3 = (c4, p4)" by (cases "get p3")
  have f4: "frame p p4" by (rule frame_trans[OF f3 frame_get[OF g4]])
  define q where "q = p4\<lparr>clast := c4\<rparr>"
  have fq: "frame p q" using f4 by (simp add: q_def)
  show ?thesis
  proof (cases "jstream_expand q 1")
    case (Inl a)
    obtain e r where a: "a = (e, r)" by (cases a)
    from frame_expand_fail[of q 1 e r] Inl a fq have "frame p r" "e = ERR_MEMORY"
      by (auto intro: frame_trans)
    with Inl a g1 g2 g3 g4 f1 f2 f3 f4 fq show ?thesis
      by (simp add: jstream_null_def Let_def q_def[symmetric])
  next
    case (Inr b)
    obtain off r where b: "b = (off, r)" by (cases b)
    from frame_expand[of q 1 off r] Inr b fq have fr: "frame p r"
      by (auto intro: frame_trans)
    then have "frame p (jstream_next (poke r off NULL))" by (simp add: frame_next')
    with fr Inr b g1 g2 g3 g4 f1 f2 f3 f4 fq show ?thesis
      by (simp add: jstream_null_def Let_def q_def[symmetric])
  qed
qed

lemma frame_true: "frame p (final (jstream_true p)) \<and> sound (jstream_true p)"
proof -
  obtain c1 p1 where g1: "get p = (c1, p1)" by (cases "get p")
  have f1: "frame p p1" by (rule frame_get[OF g1])
  obtain c2 p2 where g2: "get p1 = (c2, p2)" by (cases "get p1")
  have f2: "frame p p2" by (rule frame_trans[OF f1 frame_get[OF g2]])
  obtain c3 p3 where g3: "get p2 = (c3, p3)" by (cases "get p2")
  have f3: "frame p p3" by (rule frame_trans[OF f2 frame_get[OF g3]])
  obtain c4 p4 where g4: "get p3 = (c4, p4)" by (cases "get p3")
  have f4: "frame p p4" by (rule frame_trans[OF f3 frame_get[OF g4]])
  define q where "q = p4\<lparr>clast := c4\<rparr>"
  have fq: "frame p q" using f4 by (simp add: q_def)
  show ?thesis
  proof (cases "jstream_expand q 1")
    case (Inl a)
    obtain e r where a: "a = (e, r)" by (cases a)
    from frame_expand_fail[of q 1 e r] Inl a fq have "frame p r" "e = ERR_MEMORY"
      by (auto intro: frame_trans)
    with Inl a g1 g2 g3 g4 f1 f2 f3 f4 fq show ?thesis
      by (simp add: jstream_true_def Let_def q_def[symmetric])
  next
    case (Inr b)
    obtain off r where b: "b = (off, r)" by (cases b)
    from frame_expand[of q 1 off r] Inr b fq have fr: "frame p r"
      by (auto intro: frame_trans)
    then have "frame p (jstream_next (poke r off TRUE))" by (simp add: frame_next')
    with fr Inr b g1 g2 g3 g4 f1 f2 f3 f4 fq show ?thesis
      by (simp add: jstream_true_def Let_def q_def[symmetric])
  qed
qed

lemma frame_false: "frame p (final (jstream_false p)) \<and> sound (jstream_false p)"
proof -
  obtain c1 p1 where g1: "get p = (c1, p1)" by (cases "get p")
  have f1: "frame p p1" by (rule frame_get[OF g1])
  obtain c2 p2 where g2: "get p1 = (c2, p2)" by (cases "get p1")
  have f2: "frame p p2" by (rule frame_trans[OF f1 frame_get[OF g2]])
  obtain c3 p3 where g3: "get p2 = (c3, p3)" by (cases "get p2")
  have f3: "frame p p3" by (rule frame_trans[OF f2 frame_get[OF g3]])
  obtain c4 p4 where g4: "get p3 = (c4, p4)" by (cases "get p3")
  have f4: "frame p p4" by (rule frame_trans[OF f3 frame_get[OF g4]])
  obtain c5 p5 where g5: "get p4 = (c5, p5)" by (cases "get p4")
  have f5: "frame p p5" by (rule frame_trans[OF f4 frame_get[OF g5]])
  define q where "q = p5\<lparr>clast := c5\<rparr>"
  have fq: "frame p q" using f5 by (simp add: q_def)
  show ?thesis
  proof (cases "jstream_expand q 1")
    case (Inl a)
    obtain e r where a: "a = (e, r)" by (cases a)
    from frame_expand_fail[of q 1 e r] Inl a fq have "frame p r" "e = ERR_MEMORY"
      by (auto intro: frame_trans)
    with Inl a g1 g2 g3 g4 g5 f1 f2 f3 f4 f5 fq show ?thesis
      by (simp add: jstream_false_def Let_def q_def[symmetric])
  next
    case (Inr b)
    obtain off r where b: "b = (off, r)" by (cases b)
    from frame_expand[of q 1 off r] Inr b fq have fr: "frame p r"
      by (auto intro: frame_trans)
    then have "frame p (jstream_next (poke r off FALSE))" by (simp add: frame_next')
    with fr Inr b g1 g2 g3 g4 g5 f1 f2 f3 f4 f5 fq show ?thesis
      by (simp add: jstream_false_def Let_def q_def[symmetric])
  qed
qed


lemma frame_number_scan:
  "number_scan i buf p = (i', buf', p') \<Longrightarrow> frame p p'"
proof (induction i buf p rule: number_scan.induct)
  case (1 i buf p)
  show ?case
  proof (cases "i < 128")
    case False
    with "1.prems" number_scan.simps[of i buf p] show ?thesis by simp
  next
    case True
    obtain c p1 where g: "get p = (c, p1)" by (cases "get p")
    note f = frame_get[OF g]
    show ?thesis
    proof (cases "strchr num_chars (of_schar (to_char c))")
      case False
      with "1.prems" True g f number_scan.simps[of i buf p] show ?thesis
        by (auto simp: Let_def)
    next
      case sc: True
      with "1.prems" True g number_scan.simps[of i buf p]
      have r: "number_scan (i + 1) (buf @ [to_char c]) p1 = (i', buf', p')"
        by (simp add: Let_def)
      from "1.IH"[OF True g[symmetric] refl _ r] sc f show ?thesis
        by (auto intro: frame_trans)
    qed
  qed
qed

lemma frame_number: "frame p (final (jstream_number p)) \<and> sound (jstream_number p)"
proof -
  obtain i buf p1 where sc: "number_scan 1 [to_char (clast p)] p = (i, buf, p1)"
    by (cases "number_scan 1 [to_char (clast p)] p")
  note f1 = frame_number_scan[OF sc]
  show ?thesis
  proof (cases "jstream_expand p1 3")
    case (Inl a)
    obtain e r where a: "a = (e, r)" by (cases a)
    from frame_expand_fail[of p1 3 e r] Inl a f1 have "frame p r" "e = ERR_MEMORY"
      by (auto intro: frame_trans)
    with Inl a sc f1 show ?thesis
      by (simp add: jstream_number_def Let_def)
  next
    case (Inr b)
    obtain off r where b: "b = (off, r)" by (cases b)
    from frame_expand[of p1 3 off r] Inr b f1 have fr: "frame p r"
      by (auto intro: frame_trans)
    then have "frame p (jstream_next (number_store r off (cstr buf)))"
      by (simp add: frame_next')
    with fr Inr b sc f1 show ?thesis
      by (simp add: jstream_number_def Let_def)
  qed
qed

lemma frame_string_scan:
  "(string_scan j buf p = Inr (j', buf', p') \<longrightarrow> frame p p') \<and>
   (string_scan j buf p = Inl (e, p') \<longrightarrow> frame p p' \<and> e = ERR_EOS_INSIDE_STRING)"
proof (induction j buf p rule: string_scan.induct)
  case (1 j buf p)
  show ?case
  proof (cases "j < 64")
    case False
    with string_scan.simps[of j buf p] show ?thesis by simp
  next
    case True
    obtain c p1 where g: "get p = (c, p1)" by (cases "get p")
    have f: "frame p (p1\<lparr>clast := c\<rparr>)" using frame_get[OF g] by simp
    show ?thesis
    proof (cases "c = 34 \<or> c < 0")
      case True
      with \<open>j < 64\<close> g f string_scan.simps[of j buf p] show ?thesis
        by (auto simp: Let_def)
    next
      case False
      with \<open>j < 64\<close> g string_scan.simps[of j buf p]
      have r: "string_scan j buf p = string_scan (j + 1) (buf @ [to_char c]) (p1\<lparr>clast := c\<rparr>)"
        by (simp add: Let_def)
      from "1.IH"[OF \<open>j < 64\<close> g[symmetric] refl] False f show ?thesis
        unfolding r by (auto intro: frame_trans)
    qed
  qed
qed

lemma frame_string_loop:
  "(string_loop p = Inr (buf, p') \<longrightarrow> frame p p') \<and>
   (string_loop p = Inl (e, p') \<longrightarrow> frame p p' \<and> e \<noteq> ERR_NONE)"
proof (induction p rule: string_loop.induct)
  case (1 p)
  show ?case
  proof (cases "string_scan 0 [] p")
    case (Inl a)
    obtain e1 r where a: "a = (e1, r)" by (cases a)
    with Inl frame_string_scan[of 0 "[]" p _ _ r e1] string_loop.simps[of p] show ?thesis
      by auto
  next
    case (Inr b)
    obtain j b1 p1 where b: "b = (j, b1, p1)" by (cases b)
    with Inr frame_string_scan[of 0 "[]" p j b1 p1] have f1: "frame p p1" by simp
    show ?thesis
    proof (cases "j < 64")
      case True
      with Inr b f1 string_loop.simps[of p] show ?thesis by auto
    next
      case False
      show ?thesis
      proof (cases "jstream_expand p1 16")
        case (Inl a)
        obtain e1 r where a: "a = (e1, r)" by (cases a)
        from frame_expand_fail[of p1 16 e1 r] Inl a f1 have "frame p r" "e1 = ERR_MEMORY"
          by (auto intro: frame_trans)
        with Inl a Inr b False string_loop.simps[of p] show ?thesis by auto
      next
        case e: (Inr c)
        obtain off r where c: "c = (off, r)" by (cases c)
        from frame_expand[of p1 16 off r] e c f1 have fr: "frame p (poke_bytes r off b1)"
          by (auto intro: frame_trans)
        from Inr b False e c string_loop.simps[of p]
        have eq: "string_loop p = string_loop (poke_bytes r off b1)" by simp
        from "1.IH"[OF Inr[unfolded b] refl refl False e[unfolded c] refl] fr show ?thesis
          unfolding eq by (auto intro: frame_trans)
      qed
    qed
  qed
qed

lemma frame_string: "frame p (final (jstream_string p)) \<and> sound (jstream_string p)"
proof (cases "jstream_expand p 1")
  case (Inl a)
  obtain e r where a: "a = (e, r)" by (cases a)
  from frame_expand_fail[of p 1 e r] Inl a have "frame p r" "e = ERR_MEMORY" by auto
  with Inl a show ?thesis by (simp add: jstream_string_def)
next
  case (Inr b)
  obtain off p1 where b: "b = (off, p1)" by (cases b)
  from frame_expand[of p 1 off p1] Inr b have f1: "frame p (poke p1 off STRING)" by simp
  show ?thesis
  proof (cases "string_loop (poke p1 off STRING)")
    case (Inl a)
    obtain e r where a: "a = (e, r)" by (cases a)
    from frame_string_loop[of "poke p1 off STRING" _ r e] Inl a f1
    have "frame p r" "e \<noteq> ERR_NONE" by (auto intro: frame_trans)
    with Inl a Inr b show ?thesis by (simp add: jstream_string_def)
  next
    case l: (Inr c)
    obtain buf p2 where c: "c = (buf, p2)" by (cases c)
    from frame_string_loop[of "poke p1 off STRING" buf p2] l c f1
    have f2: "frame p p2" by (auto intro: frame_trans)
    show ?thesis
    proof (cases "jstream_expand p2 (jstream_align (length (cstr buf) + 1))")
      case (Inl a)
      obtain e r where a: "a = (e, r)" by (cases a)
      from frame_expand_fail[of p2 _ e r] Inl a f2 have "frame p r" "e = ERR_MEMORY"
        by (auto intro: frame_trans)
      with Inl a Inr b l c show ?thesis by (simp add: jstream_string_def Let_def)
    next
      case e2: (Inr d)
      obtain off2 p3 where d: "d = (off2, p3)" by (cases d)
      from frame_expand[of p2 _ off2 p3] e2 d f2 have "frame p p3"
        by (auto intro: frame_trans)
      then have "frame p (jstream_next (poke_bytes p3 off2 (cstr buf @ [0])))"
        by (simp add: frame_next')
      with e2 d Inr b l c show ?thesis by (simp add: jstream_string_def Let_def)
    qed
  qed
qed


lemma frame_final_trans:
  "frame p q \<Longrightarrow> frame q (final r) \<and> sound r \<Longrightarrow> frame p (final r) \<and> sound r"
  by (auto intro: frame_trans)

lemma frame_parser:
  "frame p (final (jstream_value p)) \<and> sound (jstream_value p)"
  "frame p (final (jstream_array p)) \<and> sound (jstream_array p)"
  "frame p (final (array_loop ilen p)) \<and> sound (array_loop ilen p)"
  "frame p (final (jstream_object p)) \<and> sound (jstream_object p)"
  "frame p (final (object_loop ilen p)) \<and> sound (object_loop ilen p)"
proof (induction p and p and ilen p and p and ilen p
    rule: jstream_value_jstream_array_array_loop_jstream_object_object_loop.induct)
  case (1 p)
  then show ?case
    using frame_string[of p] frame_number[of p] frame_false[of p] frame_null[of p] frame_true[of p]
    by (simp add: jstream_value.simps[of p])
next
  case (2 p)
  show ?case
  proof (cases "jstream_expand p 2")
    case (Inl a)
    obtain e r where a: "a = (e, r)" by (cases a)
    from frame_expand_fail[of p 2 e r] Inl a have "frame p r" "e = ERR_MEMORY" by auto
    with Inl a show ?thesis by (simp add: jstream_array.simps[of p])
  next
    case (Inr b)
    obtain objnew p1 where b: "b = (objnew, p1)" by (cases b)
    define p3 where "p3 = jstream_next (poke (poke p1 objnew ARRAY) (objnew + 1) 0)"
    from frame_expand[of p 2 objnew p1] Inr b have f3: "frame p p3"
      by (simp add: p3_def frame_next')
    have eq: "jstream_array p =
       (if clast p3 \<noteq> ch CHR '']'' then
          (case array_loop (objnew + 1) p3 of
             Inl e \<Rightarrow> Inl e
           | Inr p4 \<Rightarrow>
               if clast p4 \<noteq> ch CHR '']'' then Inl (ERR_CLOSED_BRACKET, p4)
               else Inr (jstream_next p4))
        else Inr (jstream_next p3))"
      using Inr b by (simp add: jstream_array.simps[of p] Let_def p3_def)
    show ?thesis
    proof (cases "clast p3 = ch CHR '']''")
      case True
      with f3 show ?thesis
        by (simp add: eq frame_next')
    next
      case False
      from "2.IH"[OF Inr b[symmetric] refl refl p3_def False]
      have ih: "frame p3 (final (array_loop (objnew + 1) p3)) \<and> sound (array_loop (objnew + 1) p3)" .
      show ?thesis
      proof (cases "array_loop (objnew + 1) p3")
        case (Inl a)
        obtain e r where a: "a = (e, r)" by (cases a)
        from ih Inl a f3 have "frame p r" "e \<noteq> ERR_NONE" by (auto intro: frame_trans)
        with Inl a False show ?thesis
          by (simp add: eq)
      next
        case l: (Inr p4)
        from ih l f3 have "frame p p4" by (auto intro: frame_trans)
        with l False show ?thesis
          by (simp add: eq frame_next')
      qed
    qed
  qed
next
  case (3 ilen p)
  define p1 where "p1 = poke p ilen ((peek p ilen + 1) mod 2 ^ 32)"
  from "3.IH"(1)[OF p1_def]
  have ih: "frame p1 (final (jstream_value p1)) \<and> sound (jstream_value p1)" .
  have eq: "array_loop ilen p =
     (case jstream_value p1 of
        Inl e \<Rightarrow> Inl e
      | Inr p2 \<Rightarrow>
          if clast p2 \<noteq> ch CHR '','' then Inr p2
          else array_loop ilen (jstream_next p2))"
    by (simp add: array_loop.simps[of ilen p] Let_def p1_def)
  show ?case
  proof (cases "jstream_value p1")
    case (Inl a)
    obtain e r where a: "a = (e, r)" by (cases a)
    from ih Inl a have "frame p r" "e \<noteq> ERR_NONE" by (simp_all add: p1_def)
    with Inl a show ?thesis by (simp add: eq)
  next
    case (Inr p2)
    from ih Inr have f2: "frame p p2" by (simp add: p1_def)
    show ?thesis
    proof (cases "clast p2 = ch CHR '',''")
      case False
      with Inr f2 show ?thesis
        by (simp add: eq)
    next
      case True
      from "3.IH"(2)[OF p1_def Inr] True
      have "frame (jstream_next p2) (final (array_loop ilen (jstream_next p2))) \<and>
            sound (array_loop ilen (jstream_next p2))" by simp
      with f2 have "frame p (final (array_loop ilen (jstream_next p2))) \<and>
            sound (array_loop ilen (jstream_next p2))"
        by (intro frame_final_trans[of p "jstream_next p2"]) (simp_all add: frame_next')
      with Inr True show ?thesis
        by (simp add: eq)
    qed
  qed
next
  case (4 p)
  show ?case
  proof (cases "jstream_expand p 2")
    case (Inl a)
    obtain e r where a: "a = (e, r)" by (cases a)
    from frame_expand_fail[of p 2 e r] Inl a have "frame p r" "e = ERR_MEMORY" by auto
    with Inl a show ?thesis by (simp add: jstream_object.simps[of p])
  next
    case (Inr b)
    obtain objnew p1 where b: "b = (objnew, p1)" by (cases b)
    define p3 where "p3 = jstream_next (poke (poke p1 objnew OBJECT) (objnew + 1) 0)"
    from frame_expand[of p 2 objnew p1] Inr b have f3: "frame p p3"
      by (simp add: p3_def frame_next')
    have eq: "jstream_object p =
       (if clast p3 \<noteq> ch CHR ''}'' then
          (case object_loop (objnew + 1) p3 of
             Inl e \<Rightarrow> Inl e
           | Inr p4 \<Rightarrow> Inr (jstream_next p4))
        else Inr (jstream_next p3))"
      using Inr b by (simp add: jstream_object.simps[of p] Let_def p3_def)
    show ?thesis
    proof (cases "clast p3 = ch CHR ''}''")
      case True
      with f3 show ?thesis
        by (simp add: eq frame_next')
    next
      case False
      from "4.IH"[OF Inr b[symmetric] refl refl p3_def False]
      have ih: "frame p3 (final (object_loop (objnew + 1) p3)) \<and> sound (object_loop (objnew + 1) p3)" .
      show ?thesis
      proof (cases "object_loop (objnew + 1) p3")
        case (Inl a)
        obtain e r where a: "a = (e, r)" by (cases a)
        from ih Inl a f3 have "frame p r" "e \<noteq> ERR_NONE" by (auto intro: frame_trans)
        with Inl a False show ?thesis
          by (simp add: eq)
      next
        case l: (Inr p4)
        from ih l f3 have "frame p p4" by (auto intro: frame_trans)
        with l False show ?thesis
          by (simp add: eq frame_next')
      qed
    qed
  qed
next
  case (5 ilen p)
  define p1 where "p1 = poke p ilen ((peek p ilen + 1) mod 2 ^ 32)"
  from "5.IH"(1)[OF p1_def]
  have ih: "frame p1 (final (jstream_value p1)) \<and> sound (jstream_value p1)" .
  have eq: "object_loop ilen p =
     (case jstream_value p1 of
        Inl e \<Rightarrow> Inl e
      | Inr p2 \<Rightarrow>
          if clast p2 \<noteq> ch CHR '':'' then Inl (ERR_COLON, p2)
          else (case jstream_value (jstream_next p2) of
                  Inl e \<Rightarrow> Inl e
                | Inr p3 \<Rightarrow>
                    if clast p3 = ch CHR ''}'' then Inr p3
                    else if clast p3 \<noteq> ch CHR '','' then Inl (ERR_COMMA, p3)
                    else object_loop ilen (jstream_next p3)))"
    by (simp add: object_loop.simps[of ilen p] Let_def p1_def)
  show ?case
  proof (cases "jstream_value p1")
    case (Inl a)
    obtain e r where a: "a = (e, r)" by (cases a)
    from ih Inl a have "frame p r" "e \<noteq> ERR_NONE" by (simp_all add: p1_def)
    with Inl a show ?thesis by (simp add: eq)
  next
    case (Inr p2)
    from ih Inr have f2: "frame p p2" by (simp add: p1_def)
    show ?thesis
    proof (cases "clast p2 = ch CHR '':''")
      case False
      with Inr f2 show ?thesis
        by (simp add: eq)
    next
      case True
      from "5.IH"(2)[OF p1_def Inr] True
      have ih2: "frame (jstream_next p2) (final (jstream_value (jstream_next p2))) \<and>
            sound (jstream_value (jstream_next p2))" by simp
      have fn: "frame p (jstream_next p2)" using f2 by (simp add: frame_next')
      show ?thesis
      proof (cases "jstream_value (jstream_next p2)")
        case (Inl a)
        obtain e r where a: "a = (e, r)" by (cases a)
        from ih2 Inl a fn have "frame p r" "e \<noteq> ERR_NONE" by (auto intro: frame_trans)
        with Inl a Inr True show ?thesis
          by (simp add: eq)
      next
        case v2: (Inr p3)
        from ih2 v2 fn have f3: "frame p p3" by (auto intro: frame_trans)
        show ?thesis
        proof (cases "clast p3 = ch CHR ''}''")
          case c: True
          with v2 Inr True f3 show ?thesis
            by (simp add: eq)
        next
          case c: False
          show ?thesis
          proof (cases "clast p3 = ch CHR '',''")
            case False
            with c v2 Inr True f3 show ?thesis
              by (simp add: eq)
          next
            case c2: True
            from "5.IH"(3)[OF p1_def Inr _ v2] True c c2
            have "frame (jstream_next p3) (final (object_loop ilen (jstream_next p3))) \<and>
                  sound (object_loop ilen (jstream_next p3))" by simp
            with f3 have "frame p (final (object_loop ilen (jstream_next p3))) \<and>
                  sound (object_loop ilen (jstream_next p3))"
              by (intro frame_final_trans[of p "jstream_next p3"]) (simp_all add: frame_next')
            with c c2 v2 Inr True show ?thesis
              by (simp add: eq)
          qed
        qed
      qed
    qed
  qed
qed



lemma frame_stream_set: "frame p q \<Longrightarrow> set (stream q) \<subseteq> set (stream p)"
  by (auto simp: frame_def dest: set_mono_suffix)

section \<open>Failure releases the buffer\<close>

lemma run_oom:
  "(case jstream ((reading ''[1]'')\<lparr>allocs := [Some 7, None], live := 5\<rparr>) of
      (r, p') \<Rightarrow> r = None \<and> error p' = ERR_MEMORY)"
  by code_simp

text \<open>
  Claim C4: whenever \<^verbatim>\<open>jstream\<close> reports an error, whatever its code, it returns the null
  pointer, \<^verbatim>\<open>p->obj\<close> is null, and the allocator holds exactly the words it held before the
  call: every word of the partially built buffer has been released.
\<close>

theorem failure_releases_buffer:
  assumes "error (snd (jstream p)) \<noteq> ERR_NONE"
  shows "fst (jstream p) = None \<and> obj (snd (jstream p)) = None \<and> live (snd (jstream p)) = live p"
proof -
  define p0 where "p0 = p\<lparr>obj := None, size_w := 0, clast := - 1, error := ERR_NONE\<rparr>"
  define p1 where "p1 = jstream_next p0"
  have eq: "jstream p =
     (case jstream_value p1 of
        Inr p2 \<Rightarrow> (obj p2, p2)
      | Inl (e, p2) \<Rightarrow>
          let p3 = p2\<lparr>error := e\<rparr>;
              p4 = (case obj p3 of None \<Rightarrow> p3 | Some blk \<Rightarrow> (free p3 blk)\<lparr>obj := None\<rparr>)
          in (None, p4))"
    by (simp add: jstream_def Let_def p0_def p1_def)
  have f: "frame p0 (final (jstream_value p1))"
    using frame_parser(1)[of p1] frame_next[of p0] by (auto simp: p1_def intro: frame_trans)
  have h0: "held p0 = 0" "live p0 = live p" "error p0 = ERR_NONE"
    by (simp_all add: held_def p0_def)
  show ?thesis
  proof (cases "jstream_value p1")
    case (Inr p2)
    with f h0 have "error p2 = ERR_NONE" by (simp add: frame_def)
    with assms Inr show ?thesis by (simp add: eq)
  next
    case (Inl a)
    obtain e p2 where a: "a = (e, p2)" by (cases a)
    from f h0 Inl a have l: "live p2 = live p + held p2" by (simp add: frame_def)
    show ?thesis
    proof (cases "obj p2")
      case None
      with l Inl a show ?thesis by (simp add: eq held_def)
    next
      case (Some blk)
      with l Inl a show ?thesis by (simp add: eq held_def free_def)
    qed
  qed
qed

theorem failure_releases_buffer_witness:
  "error (snd (jstream ((reading ''[1]'')\<lparr>allocs := [Some 7, None], live := 5\<rparr>))) = ERR_MEMORY \<and>
   fst (jstream ((reading ''[1]'')\<lparr>allocs := [Some 7, None], live := 5\<rparr>)) = None \<and>
   obj (snd (jstream ((reading ''[1]'')\<lparr>allocs := [Some 7, None], live := 5\<rparr>))) = None \<and>
   live (snd (jstream ((reading ''[1]'')\<lparr>allocs := [Some 7, None], live := 5\<rparr>))) = 5"
  using failure_releases_buffer[of "(reading ''[1]'')\<lparr>allocs := [Some 7, None], live := 5\<rparr>"]
    run_oom
  by (cases "jstream ((reading ''[1]'')\<lparr>allocs := [Some 7, None], live := 5\<rparr>)") simp

section \<open>The bound on numerals\<close>

lemma to_char_less [simp]: "to_char c < 256"
  by (simp add: to_char_def)

lemma to_char_of_schar [simp]: "b < 256 \<Longrightarrow> to_char (of_schar b) = b"
  by (auto simp: to_char_def of_schar_def)

lemma strchr_of_schar [simp]: "strchr s (of_schar (to_char c)) = strchr s c"
  by (simp add: strchr_def)

lemma number_scan_run:
  "stream p = run @ rest \<Longrightarrow> \<forall>c\<in>set run. strchr num_chars c \<Longrightarrow> i + length run \<le> 128 \<Longrightarrow>
   number_scan i buf p = number_scan (i + length run) (buf @ map to_char run) (p\<lparr>stream := rest\<rparr>)"
proof (induction run arbitrary: i buf p)
  case Nil
  then have "p\<lparr>stream := rest\<rparr> = p" by simp
  then show ?case by simp
next
  case (Cons c run)
  from Cons.prems have i: "i < 128" and g: "get p = (c, p\<lparr>stream := run @ rest\<rparr>)"
    and sc: "strchr num_chars c"
    by (simp_all add: get_def)
  from i g sc have "number_scan i buf p =
      number_scan (i + 1) (buf @ [to_char c]) (p\<lparr>stream := run @ rest\<rparr>)"
    by (subst number_scan.simps) (simp add: Let_def)
  also have "\<dots> = number_scan (i + 1 + length run) ((buf @ [to_char c]) @ map to_char run)
      (p\<lparr>stream := run @ rest, stream := rest\<rparr>)"
    using Cons.prems by (intro Cons.IH) simp_all
  finally show ?case by simp
qed

lemma number_scan_stop:
  assumes "i < 128" and "rest = [] \<or> \<not> strchr num_chars (hd rest)" and "stream p = rest"
  shows "number_scan i buf p =
    (i, buf, p\<lparr>stream := tl rest,
               clast := of_schar (to_char (case rest of [] \<Rightarrow> - 1 | c # _ \<Rightarrow> c))\<rparr>)"
proof (cases rest)
  case Nil
  with assms show ?thesis
    by (subst number_scan.simps) (simp add: get_def Let_def)
next
  case (Cons c cs)
  with assms show ?thesis
    by (subst number_scan.simps) (simp add: get_def Let_def)
qed

lemma cstr_id: "0 \<notin> set bs \<Longrightarrow> cstr bs = bs"
  by (induction bs) (auto simp: cstr_def)

text \<open>
  Claim C8: the scratch buffer of \<^verbatim>\<open>jstream_number\<close> holds 127 characters and the NUL. When
  the first character is followed by 127 or more numeral characters the handler jumps with
  \<open>ERR_NUMBER_TOO_LONG\<close>. When it is followed by fewer, the text handed to \<^verbatim>\<open>strtod\<close> and
  stored is the whole numeral, first character included: nothing is cut off, and the only
  errors left are \<open>ERR_NUMBER\<close> and a failed allocation.
\<close>

theorem number_bound:
  assumes "stream p = run @ rest" and "\<forall>c\<in>set run. to_char c \<in> set num_chars"
  shows "(127 \<le> length run \<longrightarrow> (\<exists>p'. jstream_number p = Inl (ERR_NUMBER_TOO_LONG, p'))) \<and>
         (length run < 127 \<and> to_char (clast p) \<noteq> 0 \<and> (rest = [] \<or> \<not> strchr num_chars (hd rest)) \<longrightarrow>
            jstream_number p =
              (let text = to_char (clast p) # map to_char run;
                   p1 = p\<lparr>stream := tl rest,
                         clast := of_schar (to_char (case rest of [] \<Rightarrow> - 1 | c # _ \<Rightarrow> c))\<rparr>
               in if strtod_end text \<noteq> length text then Inl (ERR_NUMBER, p1)
                  else (case jstream_expand p1 3 of
                          Inl e \<Rightarrow> Inl e
                        | Inr (objnew, p2) \<Rightarrow>
                            let p3 = number_store p2 objnew text
                            in if \<not> strchr ws_chars (clast p3) then Inr p3
                               else Inr (jstream_next p3))))"
proof -
  have sc: "\<forall>c\<in>set run. strchr num_chars c" using assms(2) by (simp add: strchr_def)
  show ?thesis
  proof (intro conjI impI)
    assume long: "127 \<le> length run"
    have s: "stream p = take 127 run @ (drop 127 run @ rest)" using assms(1) by simp
    have "\<forall>c\<in>set (take 127 run). strchr num_chars c" using sc by (auto dest: in_set_takeD)
    from number_scan_run[OF s this, of 1 "[to_char (clast p)]"] long
    have "number_scan 1 [to_char (clast p)] p =
        number_scan 128 ([to_char (clast p)] @ map to_char (take 127 run))
          (p\<lparr>stream := drop 127 run @ rest\<rparr>)" by (simp add: min_def)
    also have "\<dots> = (128, [to_char (clast p)] @ map to_char (take 127 run),
          p\<lparr>stream := drop 127 run @ rest\<rparr>)"
      by (subst number_scan.simps) simp
    finally show "\<exists>p'. jstream_number p = Inl (ERR_NUMBER_TOO_LONG, p')"
      by (simp add: jstream_number_def)
  next
    assume a: "length run < 127 \<and> to_char (clast p) \<noteq> 0 \<and>
      (rest = [] \<or> \<not> strchr num_chars (hd rest))"
    define tx where "tx = to_char (clast p) # map to_char run"
    from number_scan_run[OF assms(1) sc, of 1 "[to_char (clast p)]"] a
    have "number_scan 1 [to_char (clast p)] p =
        number_scan (1 + length run) tx (p\<lparr>stream := rest\<rparr>)" by (simp add: tx_def)
    also have "\<dots> = (1 + length run, tx, p\<lparr>stream := rest, stream := tl rest,
               clast := of_schar (to_char (case rest of [] \<Rightarrow> - 1 | c # _ \<Rightarrow> c))\<rparr>)"
      using a by (intro number_scan_stop) simp_all
    finally have sc1: "number_scan 1 [to_char (clast p)] p =
      (1 + length run, tx, p\<lparr>stream := tl rest,
               clast := of_schar (to_char (case rest of [] \<Rightarrow> - 1 | c # _ \<Rightarrow> c))\<rparr>)" by simp
    have "0 \<notin> set num_chars" by (simp add: num_chars_def)
    with assms(2) a have "0 \<notin> set tx" by (auto simp: tx_def)
    then have c: "cstr tx = tx" by (rule cstr_id)
    from a sc1 c show "jstream_number p =
              (let text = to_char (clast p) # map to_char run;
                   p1 = p\<lparr>stream := tl rest,
                         clast := of_schar (to_char (case rest of [] \<Rightarrow> - 1 | c # _ \<Rightarrow> c))\<rparr>
               in if strtod_end text \<noteq> length text then Inl (ERR_NUMBER, p1)
                  else (case jstream_expand p1 3 of
                          Inl e \<Rightarrow> Inl e
                        | Inr (objnew, p2) \<Rightarrow>
                            let p3 = number_store p2 objnew text
                            in if \<not> strchr ws_chars (clast p3) then Inr p3
                               else Inr (jstream_next p3)))"
      by (simp add: jstream_number_def Let_def tx_def[symmetric] cong: sum.case_cong)
  qed
qed


lemma replicate_3: "replicate 3 x = [x, x, x]"
  by (simp add: numeral_3_eq_3)

definition twenty_five :: "jstream_param_s" where
  "twenty_five = (reading ''5,'')\<lparr>clast := ch CHR ''2'',
     strtod_val := (\<lambda>t. if t = map of_char ''25'' then 0x4039000000000000 else 0)\<rparr>"

theorem number_bound_witness:
  "(\<exists>p'. jstream_number ((reading (replicate 127 CHR ''1''))\<lparr>clast := ch CHR ''1''\<rparr>) =
          Inl (ERR_NUMBER_TOO_LONG, p')) \<and>
   (\<exists>p'. jstream_number twenty_five = Inr p' \<and>
         obj p' = Some [3, 0, 0x40390000] \<and> clast p' = ch CHR '','')"
proof -
  have a: "\<forall>c\<in>set (map of_char (replicate 127 CHR ''1'')). to_char c \<in> set num_chars"
    by (simp add: to_char_def num_chars_def)
  have b: "\<forall>c\<in>set (map of_char ''5''). to_char c \<in> set num_chars"
    by (simp add: to_char_def num_chars_def)
  from number_bound[of "(reading (replicate 127 CHR ''1''))\<lparr>clast := ch CHR ''1''\<rparr>"
      "map of_char (replicate 127 CHR ''1'')" "[]", OF _ a]
  have 1: "\<exists>p'. jstream_number ((reading (replicate 127 CHR ''1''))\<lparr>clast := ch CHR ''1''\<rparr>) =
          Inl (ERR_NUMBER_TOO_LONG, p')"
    by (simp add: reading_def)
  from number_bound[of twenty_five "map of_char ''5''" "map of_char '',''", OF _ b]
  have 2: "\<exists>p'. jstream_number twenty_five = Inr p' \<and>
         obj p' = Some [3, 0, 0x40390000] \<and> clast p' = ch CHR '',''"
    by (simp add: twenty_five_def reading_def to_char_def of_schar_def strchr_def num_chars_def
        ws_chars_def strtod_end_def strtod_exp_def is_digit_def is_space_def Let_def
        jstream_expand_def malloc_def alloc_outcome_def number_store_def poke_def replicate_3)
  from 1 2 show ?thesis by blast
qed

section \<open>The lookahead convention\<close>

text \<open>
  The texts the handlers match, as the source reads them. \<open>value_text cs r\<close>: the characters
  \<open>cs\<close> begin with the text of one value and \<open>r\<close> is what follows it. The rules are the
  grammar of \<^verbatim>\<open>jstream.c\<close> with the lexical tests of the code: a blank is a character
  \<^verbatim>\<open>strchr\<close> finds in the string of space, CR, TAB and LF; a literal is followed by a blank
  or one of \<^verbatim>\<open>]},:\<close>; a number is a digit or a minus sign followed by the longest run of
  characters of \<^verbatim>\<open>0123456789.+-eE\<close>, at most 127 characters in all, that \<^verbatim>\<open>strtod\<close> converts
  entirely; a string ends at the first double quote and holds no negative character.
\<close>

inductive blanks :: "int list \<Rightarrow> int list \<Rightarrow> bool" where
  blanks_none: "blanks cs cs"
| blanks_more: "strchr ws_chars c \<Longrightarrow> blanks cs r \<Longrightarrow> blanks (c # cs) r"

inductive numerals :: "int list \<Rightarrow> int list \<Rightarrow> int list \<Rightarrow> bool" where
  numerals_none: "numerals cs [] cs"
| numerals_more: "strchr num_chars c \<Longrightarrow> numerals cs ds r \<Longrightarrow> numerals (c # cs) (c # ds) r"

inductive characters :: "int list \<Rightarrow> int list \<Rightarrow> bool" where
  characters_quote: "c = ch CHR 0x22 \<Longrightarrow> characters (c # r) r"
| characters_more: "c \<noteq> ch CHR 0x22 \<Longrightarrow> 0 \<le> c \<Longrightarrow> characters cs r \<Longrightarrow> characters (c # cs) r"

definition delimited :: "int list \<Rightarrow> bool" where
  "delimited r = (case r of [] \<Rightarrow> False | c # _ \<Rightarrow> strchr delim_chars c)"

definition numeral_ends :: "int list \<Rightarrow> bool" where
  "numeral_ends r = (case r of [] \<Rightarrow> True | c # _ \<Rightarrow> \<not> strchr num_chars c)"

definition numeral_text :: "int list \<Rightarrow> bool" where
  "numeral_text ds =
     (length ds < 128 \<and>
      strtod_end (cstr (map to_char ds)) = length (cstr (map to_char ds)))"

inductive value_text :: "int list \<Rightarrow> int list \<Rightarrow> bool"
  and elements :: "int list \<Rightarrow> int list \<Rightarrow> bool"
  and members :: "int list \<Rightarrow> int list \<Rightarrow> bool"
where
  text_null: "[c0, c1, c2, c3] = map ch ''null'' \<Longrightarrow> delimited r \<Longrightarrow>
     value_text (c0 # c1 # c2 # c3 # r) r"
| text_true: "[c0, c1, c2, c3] = map ch ''true'' \<Longrightarrow> delimited r \<Longrightarrow>
     value_text (c0 # c1 # c2 # c3 # r) r"
| text_false: "[c0, c1, c2, c3, c4] = map ch ''false'' \<Longrightarrow> delimited r \<Longrightarrow>
     value_text (c0 # c1 # c2 # c3 # c4 # r) r"
| text_number: "(ch CHR ''0'' \<le> d \<and> d \<le> ch CHR ''9'') \<or> d = ch CHR ''-'' \<Longrightarrow>
     numerals cs ds r \<Longrightarrow> numeral_ends r \<Longrightarrow> numeral_text (d # ds) \<Longrightarrow>
     value_text (d # cs) r"
| text_string: "c = ch CHR 0x22 \<Longrightarrow> characters cs r \<Longrightarrow> value_text (c # cs) r"
| text_array_empty: "c = ch CHR ''['' \<Longrightarrow> blanks cs (d # r) \<Longrightarrow> d = ch CHR '']'' \<Longrightarrow>
     value_text (c # cs) r"
| text_array: "c = ch CHR ''['' \<Longrightarrow> blanks cs r1 \<Longrightarrow> elements r1 r2 \<Longrightarrow>
     blanks r2 (d # r) \<Longrightarrow> d = ch CHR '']'' \<Longrightarrow> value_text (c # cs) r"
| text_object_empty: "c = ch CHR ''{'' \<Longrightarrow> blanks cs (d # r) \<Longrightarrow> d = ch CHR ''}'' \<Longrightarrow>
     value_text (c # cs) r"
| text_object: "c = ch CHR ''{'' \<Longrightarrow> blanks cs r1 \<Longrightarrow> members r1 r2 \<Longrightarrow>
     blanks r2 (d # r) \<Longrightarrow> d = ch CHR ''}'' \<Longrightarrow> value_text (c # cs) r"
| elements_last: "value_text cs r \<Longrightarrow> elements cs r"
| elements_more: "value_text cs r1 \<Longrightarrow> blanks r1 (d # r2) \<Longrightarrow> d = ch CHR '','' \<Longrightarrow>
     blanks r2 r3 \<Longrightarrow> elements r3 r \<Longrightarrow> elements cs r"
| members_last: "value_text cs r1 \<Longrightarrow> blanks r1 (d # r2) \<Longrightarrow> d = ch CHR '':'' \<Longrightarrow>
     blanks r2 r3 \<Longrightarrow> value_text r3 r \<Longrightarrow> members cs r"
| members_more: "value_text cs r1 \<Longrightarrow> blanks r1 (d # r2) \<Longrightarrow> d = ch CHR '':'' \<Longrightarrow>
     blanks r2 r3 \<Longrightarrow> value_text r3 r4 \<Longrightarrow> blanks r4 (e # r5) \<Longrightarrow> e = ch CHR '','' \<Longrightarrow>
     blanks r5 r6 \<Longrightarrow> members r6 r \<Longrightarrow> members cs r"

code_pred (modes: i \<Rightarrow> o \<Rightarrow> bool) blanks .
code_pred (modes: i \<Rightarrow> o \<Rightarrow> o \<Rightarrow> bool) numerals .
code_pred (modes: i \<Rightarrow> o \<Rightarrow> bool) characters .
code_pred (modes: i \<Rightarrow> o \<Rightarrow> bool) value_text .

definition lookahead :: "int list \<Rightarrow> jstream_param_s \<Rightarrow> bool" where
  "lookahead r p' \<longleftrightarrow>
     (\<exists>c. blanks r (c # stream p') \<and> \<not> strchr ws_chars c \<and> clast p' = c) \<or>
     (blanks r [] \<and> stream p' = [] \<and> clast p' = - 1)"

lemma lookahead_blank: "strchr ws_chars c \<Longrightarrow> lookahead cs p' \<Longrightarrow> lookahead (c # cs) p'"
  unfolding lookahead_def by (blast intro: blanks_more)

lemma lookahead_here:
  "\<not> strchr ws_chars (clast p') \<Longrightarrow> r = clast p' # stream p' \<Longrightarrow> lookahead r p'"
  unfolding lookahead_def by (blast intro: blanks_none)

lemma lookahead_eof: "r = [] \<Longrightarrow> stream p' = [] \<Longrightarrow> clast p' = - 1 \<Longrightarrow> lookahead r p'"
  unfolding lookahead_def by (blast intro: blanks_none)

lemma lookahead_next: "lookahead (stream q) (jstream_next q)"
proof (induction q rule: jstream_next.induct)
  case (1 q)
  show ?case
  proof (cases "stream q")
    case Nil
    then show ?thesis by (simp add: jstream_next_eof lookahead_eof)
  next
    case (Cons c cs)
    show ?thesis
    proof (cases "strchr ws_chars c")
      case False
      with Cons show ?thesis by (simp add: jstream_next_stop lookahead_here)
    next
      case True
      from Cons have g: "get q = (c, q\<lparr>stream := cs\<rparr>)" by (simp add: get_def)
      from "1.IH"[OF g[symmetric] refl True]
      have "lookahead cs (jstream_next (q\<lparr>stream := cs\<rparr>))" by simp
      with True have "lookahead (c # cs) (jstream_next (q\<lparr>stream := cs\<rparr>))"
        by (rule lookahead_blank)
      with Cons True show ?thesis by (simp add: jstream_next_ws)
    qed
  qed
qed

lemma lookahead_next': "stream q = r \<Longrightarrow> lookahead r (jstream_next q)"
  using lookahead_next by blast

lemma lookahead_after:
  assumes "stream q = rest" "clast q = c"
    and "p' = (if strchr ws_chars c then jstream_next q else q)"
  shows "lookahead (c # rest) p'"
proof (cases "strchr ws_chars c")
  case True
  with assms show ?thesis by (simp add: lookahead_blank lookahead_next')
next
  case False
  with assms show ?thesis by (simp add: lookahead_here)
qed

text \<open>The separator a caller finds in \<^verbatim>\<open>p->clast\<close> stands in the text after blanks only.\<close>

lemma lookahead_at:
  "lookahead r q \<Longrightarrow> clast q \<noteq> - 1 \<Longrightarrow> blanks r (clast q # stream q)"
  unfolding lookahead_def by auto

lemma jstream_null_success:
  assumes "jstream_null p = Inr p'"
  obtains c rest q where
    "stream p = ch CHR ''u'' # ch CHR ''l'' # ch CHR ''l'' # c # rest" "strchr delim_chars c"
    "stream q = rest" "clast q = c"
    "p' = (if strchr ws_chars c then jstream_next q else q)"
proof -
  from assms obtain c rest where s: "stream p = ch CHR ''u'' # ch CHR ''l'' # ch CHR ''l'' # c # rest"
    and d: "strchr delim_chars c"
    by (auto simp: jstream_null_def get_def Let_def split: list.splits if_splits)
  define p5 where "p5 = p\<lparr>stream := rest, clast := c\<rparr>"
  from assms s d obtain objnew p6 where e: "jstream_expand p5 1 = Inr (objnew, p6)"
    by (auto simp: jstream_null_def get_def Let_def p5_def split: sum.splits)
  from expand_frame[OF e] have f: "stream p6 = rest" "clast p6 = c" by (simp_all add: p5_def)
  from assms s d e f
  have "p' = (if strchr ws_chars c then jstream_next (poke p6 objnew NULL) else poke p6 objnew NULL)"
    by (auto simp: jstream_null_def get_def Let_def p5_def)
  with s d f show ?thesis by (intro that[of c rest "poke p6 objnew NULL"]) simp_all
qed

lemma jstream_true_success:
  assumes "jstream_true p = Inr p'"
  obtains c rest q where
    "stream p = ch CHR ''r'' # ch CHR ''u'' # ch CHR ''e'' # c # rest" "strchr delim_chars c"
    "stream q = rest" "clast q = c"
    "p' = (if strchr ws_chars c then jstream_next q else q)"
proof -
  from assms obtain c rest where s: "stream p = ch CHR ''r'' # ch CHR ''u'' # ch CHR ''e'' # c # rest"
    and d: "strchr delim_chars c"
    by (auto simp: jstream_true_def get_def Let_def split: list.splits if_splits)
  define p5 where "p5 = p\<lparr>stream := rest, clast := c\<rparr>"
  from assms s d obtain objnew p6 where e: "jstream_expand p5 1 = Inr (objnew, p6)"
    by (auto simp: jstream_true_def get_def Let_def p5_def split: sum.splits)
  from expand_frame[OF e] have f: "stream p6 = rest" "clast p6 = c" by (simp_all add: p5_def)
  from assms s d e f
  have "p' = (if strchr ws_chars c then jstream_next (poke p6 objnew TRUE) else poke p6 objnew TRUE)"
    by (auto simp: jstream_true_def get_def Let_def p5_def)
  with s d f show ?thesis by (intro that[of c rest "poke p6 objnew TRUE"]) simp_all
qed

lemma jstream_false_success:
  assumes "jstream_false p = Inr p'"
  obtains c rest q where
    "stream p = ch CHR ''a'' # ch CHR ''l'' # ch CHR ''s'' # ch CHR ''e'' # c # rest" "strchr delim_chars c"
    "stream q = rest" "clast q = c"
    "p' = (if strchr ws_chars c then jstream_next q else q)"
proof -
  from assms obtain c rest where s: "stream p = ch CHR ''a'' # ch CHR ''l'' # ch CHR ''s'' # ch CHR ''e'' # c # rest"
    and d: "strchr delim_chars c"
    by (auto simp: jstream_false_def get_def Let_def split: list.splits if_splits)
  define p5 where "p5 = p\<lparr>stream := rest, clast := c\<rparr>"
  from assms s d obtain objnew p6 where e: "jstream_expand p5 1 = Inr (objnew, p6)"
    by (auto simp: jstream_false_def get_def Let_def p5_def split: sum.splits)
  from expand_frame[OF e] have f: "stream p6 = rest" "clast p6 = c" by (simp_all add: p5_def)
  from assms s d e f
  have "p' = (if strchr ws_chars c then jstream_next (poke p6 objnew FALSE) else poke p6 objnew FALSE)"
    by (auto simp: jstream_false_def get_def Let_def p5_def)
  with s d f show ?thesis by (intro that[of c rest "poke p6 objnew FALSE"]) simp_all
qed

lemma of_schar_ascii: "0 \<le> c \<Longrightarrow> c < 128 \<Longrightarrow> of_schar (to_char c) = c"
  by (simp add: of_schar_def to_char_def)

lemma null_text:
  assumes "jstream_null p = Inr p'" and "clast p = ch CHR ''n''"
  shows "\<exists>r. value_text (clast p # stream p) r \<and> lookahead r p'"
  using assms(1)
proof (rule jstream_null_success)
  fix c rest q
  assume a: "stream p = ch CHR ''u'' # ch CHR ''l'' # ch CHR ''l'' # c # rest"
    "strchr delim_chars c" "stream q = rest" "clast q = c"
    "p' = (if strchr ws_chars c then jstream_next q else q)"
  from a(1,2) assms(2) have "value_text (clast p # stream p) (c # rest)"
    by (auto intro!: text_null simp: delimited_def)
  moreover from a(3,4,5) have "lookahead (c # rest) p'" by (rule lookahead_after)
  ultimately show ?thesis by blast
qed

lemma true_text:
  assumes "jstream_true p = Inr p'" and "clast p = ch CHR ''t''"
  shows "\<exists>r. value_text (clast p # stream p) r \<and> lookahead r p'"
  using assms(1)
proof (rule jstream_true_success)
  fix c rest q
  assume a: "stream p = ch CHR ''r'' # ch CHR ''u'' # ch CHR ''e'' # c # rest"
    "strchr delim_chars c" "stream q = rest" "clast q = c"
    "p' = (if strchr ws_chars c then jstream_next q else q)"
  from a(1,2) assms(2) have "value_text (clast p # stream p) (c # rest)"
    by (auto intro!: text_true simp: delimited_def)
  moreover from a(3,4,5) have "lookahead (c # rest) p'" by (rule lookahead_after)
  ultimately show ?thesis by blast
qed

lemma false_text:
  assumes "jstream_false p = Inr p'" and "clast p = ch CHR ''f''"
  shows "\<exists>r. value_text (clast p # stream p) r \<and> lookahead r p'"
  using assms(1)
proof (rule jstream_false_success)
  fix c rest q
  assume a: "stream p = ch CHR ''a'' # ch CHR ''l'' # ch CHR ''s'' # ch CHR ''e'' # c # rest"
    "strchr delim_chars c" "stream q = rest" "clast q = c"
    "p' = (if strchr ws_chars c then jstream_next q else q)"
  from a(1,2) assms(2) have "value_text (clast p # stream p) (c # rest)"
    by (auto intro!: text_false simp: delimited_def)
  moreover from a(3,4,5) have "lookahead (c # rest) p'" by (rule lookahead_after)
  ultimately show ?thesis by blast
qed

lemma numerals_append:
  "\<forall>d\<in>set ds. strchr num_chars d \<Longrightarrow> numerals (ds @ r) ds r"
  by (induction ds) (auto intro: numerals.intros)

text \<open>
  What the loop of \<^verbatim>\<open>jstream_number\<close> has done when it leaves before the bound: it has
  taken a run of numeral characters into \<open>buf\<close> and one more character, no numeral
  character, into \<^verbatim>\<open>p->clast\<close>.
\<close>

lemma number_scan_split:
  assumes "number_scan i buf p = (i', buf', p')" and "i' < 128"
  shows "\<exists>ds r. stream p = ds @ r \<and> (\<forall>d\<in>set ds. strchr num_chars d) \<and>
           buf' = buf @ map to_char ds \<and> i' = i + length ds \<and> numeral_ends r \<and>
           stream p' = tl r \<and>
           clast p' = of_schar (to_char (case r of [] \<Rightarrow> - 1 | c # _ \<Rightarrow> c))"
  using assms
proof (induction i buf p rule: number_scan.induct)
  case (1 i buf p)
  from "1.prems" number_scan.simps[of i buf p] have i: "i < 128"
    by (cases "i < 128") auto
  obtain c p1 where g: "get p = (c, p1)" by (cases "get p")
  show ?case
  proof (cases "strchr num_chars c")
    case False
    with "1.prems" i g number_scan.simps[of i buf p]
    have r: "i' = i" "buf' = buf" "p' = p1\<lparr>clast := of_schar (to_char c)\<rparr>"
      by (simp_all add: Let_def)
    show ?thesis
    proof (cases "stream p")
      case Nil
      with g r show ?thesis
        by (intro exI[of _ "[]"] exI[of _ "[]"]) (auto simp: get_def numeral_ends_def)
    next
      case (Cons d ds)
      with g r False show ?thesis
        by (intro exI[of _ "[]"] exI[of _ "d # ds"]) (auto simp: get_def numeral_ends_def)
    qed
  next
    case sc: True
    with "1.prems" i g number_scan.simps[of i buf p]
    have r: "number_scan (i + 1) (buf @ [to_char c]) p1 = (i', buf', p')"
      by (simp add: Let_def)
    from "1.IH"[OF i g[symmetric] refl _ r "1.prems"(2)] sc
    obtain ds r where ih: "stream p1 = ds @ r" "\<forall>d\<in>set ds. strchr num_chars d"
      "buf' = (buf @ [to_char c]) @ map to_char ds" "i' = i + 1 + length ds" "numeral_ends r"
      "stream p' = tl r" "clast p' = of_schar (to_char (case r of [] \<Rightarrow> - 1 | c # _ \<Rightarrow> c))"
      by auto
    show ?thesis
    proof (cases "stream p")
      case Nil
      with g have "c = - 1" by (simp add: get_def)
      with sc show ?thesis by simp
    next
      case (Cons d cs)
      with g have "c = d" "stream p1 = cs" by (auto simp: get_def)
      with ih Cons sc show ?thesis
        by (intro exI[of _ "c # ds"] exI[of _ r]) auto
    qed
  qed
qed

lemma number_text:
  assumes "jstream_number p = Inr p'" and "\<forall>c\<in>set (stream p). 0 \<le> c \<and> c < 128"
    and "(ch CHR ''0'' \<le> clast p \<and> clast p \<le> ch CHR ''9'') \<or> clast p = ch CHR ''-''"
  shows "\<exists>r. value_text (clast p # stream p) r \<and> lookahead r p'"
  using assms(1)
proof (rule jstream_number_success)
  fix i buf p1 objnew p2
  assume sc: "number_scan 1 [to_char (clast p)] p = (i, buf, p1)" and i: "i < 128"
    and ok: "strtod_end (cstr buf) = length (cstr buf)"
    and e: "jstream_expand p1 3 = Inr (objnew, p2)"
    and r: "p' = (if strchr ws_chars (clast p1) then jstream_next (number_store p2 objnew (cstr buf))
           else number_store p2 objnew (cstr buf))"
  note fr = expand_frame[OF e]
  from number_scan_split[OF sc i]
  obtain ds rest where s: "stream p = ds @ rest" "\<forall>d\<in>set ds. strchr num_chars d"
    "buf = [to_char (clast p)] @ map to_char ds" "i = 1 + length ds" "numeral_ends rest"
    "stream p1 = tl rest"
    "clast p1 = of_schar (to_char (case rest of [] \<Rightarrow> - 1 | c # _ \<Rightarrow> c))"
    by blast
  from s(3,4) i ok have "numeral_text (clast p # ds)" by (simp add: numeral_text_def)
  with assms(3) s(1,2,5) have v: "value_text (clast p # stream p) rest"
    by (auto intro!: text_number[of _ _ ds] numerals_append)
  define q where "q = number_store p2 objnew (cstr buf)"
  have q: "stream q = stream p1" "clast q = clast p1" using fr by (simp_all add: q_def)
  have "lookahead rest p'"
  proof (cases rest)
    case Nil
    with s(6,7) q r show ?thesis by (simp add: lookahead_eof q_def)
  next
    case (Cons c cs)
    with s(1) assms(2) have "0 \<le> c \<and> c < 128" by simp
    with s(7) Cons have "clast p1 = c" by (simp add: of_schar_ascii)
    with s(6) Cons q r show ?thesis
      by (intro lookahead_after[of q cs c, unfolded Cons[symmetric]])
         (simp_all add: q_def)
  qed
  with v show ?thesis by blast
qed

lemma characters_append:
  "\<forall>c\<in>set cs. c \<noteq> ch CHR 0x22 \<and> 0 \<le> c \<Longrightarrow> characters r0 r \<Longrightarrow> characters (cs @ r0) r"
  by (induction cs) (simp_all add: characters_more)

text \<open>
  What one round of the loop of \<^verbatim>\<open>jstream_string\<close> has done: it has taken characters,
  none of them a double quote or negative, into \<open>buf\<close>, and has stopped with the buffer
  full or on a double quote, which it has taken too.
\<close>

lemma string_scan_split:
  assumes "string_scan j buf p = Inr (j', buf', p')"
  shows "\<exists>cs. (\<forall>c\<in>set cs. c \<noteq> ch CHR 0x22 \<and> 0 \<le> c) \<and> buf' = buf @ map to_char cs \<and>
           j' = j + length cs \<and>
           stream p = cs @ (if j' < 64 then ch CHR 0x22 # stream p' else stream p')"
  using assms
proof (induction j buf p rule: string_scan.induct)
  case (1 j buf p)
  show ?case
  proof (cases "j < 64")
    case False
    with "1.prems" string_scan.simps[of j buf p] show ?thesis by simp
  next
    case True
    obtain c p1 where g: "get p = (c, p1)" by (cases "get p")
    show ?thesis
    proof (cases "c = 34 \<or> c < 0")
      case stop: True
      with "1.prems" True g string_scan.simps[of j buf p]
      have r: "c = 34" "j' = j" "buf' = buf" "p' = p1\<lparr>clast := c\<rparr>"
        by (auto simp: Let_def split: if_splits)
      with g have "stream p = 34 # stream p'"
        by (auto simp: get_def split: list.splits)
      with r True show ?thesis by simp
    next
      case False
      with "1.prems" True g string_scan.simps[of j buf p]
      have r: "string_scan (j + 1) (buf @ [to_char c]) (p1\<lparr>clast := c\<rparr>) = Inr (j', buf', p')"
        by (simp add: Let_def)
      from "1.IH"[OF True g[symmetric] refl _ _ r] False
      obtain cs where ih: "\<forall>c\<in>set cs. c \<noteq> 34 \<and> 0 \<le> c" "buf' = (buf @ [to_char c]) @ map to_char cs"
        "j' = j + 1 + length cs"
        "stream p1 = cs @ (if j' < 64 then 34 # stream p' else stream p')"
        by auto
      from False g have "stream p = c # stream p1"
        by (auto simp: get_def split: list.splits)
      with ih False show ?thesis
        by (intro exI[of _ "c # cs"]) auto
    qed
  qed
qed

lemma string_loop_characters:
  "string_loop p = Inr (buf, p') \<Longrightarrow> characters (stream p) (stream p')"
proof (induction p rule: string_loop.induct)
  case (1 p)
  from "1.prems" string_loop.simps[of p]
  obtain j b p1 where sc: "string_scan 0 [] p = Inr (j, b, p1)"
    by (auto split: sum.splits)
  from string_scan_split[OF sc]
  obtain cs where cs: "\<forall>c\<in>set cs. c \<noteq> 34 \<and> 0 \<le> c"
    "stream p = cs @ (if j < 64 then 34 # stream p1 else stream p1)"
    by auto
  show ?case
  proof (cases "j < 64")
    case True
    with "1.prems" sc string_loop.simps[of p] have "p' = p1" by simp
    with cs True show ?thesis
      by (auto intro!: characters_append characters_quote)
  next
    case False
    with "1.prems" sc string_loop.simps[of p]
    obtain objnew p2 where e: "jstream_expand p1 16 = Inr (objnew, p2)"
      and r: "string_loop (poke_bytes p2 objnew b) = Inr (buf, p')"
      by (auto split: sum.splits)
    from "1.IH"[OF sc refl refl False e refl r] expand_frame[OF e]
    have "characters (stream p1) (stream p')" by simp
    with cs False show ?thesis
      by (auto intro!: characters_append)
  qed
qed

lemma string_text:
  assumes "jstream_string p = Inr p'" and "clast p = ch CHR 0x22"
  shows "\<exists>r. value_text (clast p # stream p) r \<and> lookahead r p'"
proof -
  from assms(1) obtain objnew p1 where e1: "jstream_expand p 1 = Inr (objnew, p1)"
    by (auto simp: jstream_string_def split: sum.splits)
  with assms(1) obtain buf p2 where l: "string_loop (poke p1 objnew STRING) = Inr (buf, p2)"
    by (auto simp: jstream_string_def split: sum.splits)
  with assms(1) e1 obtain objnew2 p3 where
    e2: "jstream_expand p2 (jstream_align (length (cstr buf) + 1)) = Inr (objnew2, p3)"
    and r: "p' = jstream_next (poke_bytes p3 objnew2 (cstr buf @ [0]))"
    by (auto simp: jstream_string_def Let_def split: sum.splits)
  from string_loop_characters[OF l] expand_frame[OF e1]
  have "characters (stream p) (stream p2)" by simp
  with assms(2) have "value_text (clast p # stream p) (stream p2)"
    by (auto intro: text_string)
  moreover from r expand_frame[OF e2] have "lookahead (stream p2) p'"
    by (simp add: lookahead_next')
  ultimately show ?thesis by blast
qed

lemma value_needs_char: "jstream_value p = Inr p' \<Longrightarrow> clast p \<noteq> - 1"
  by (auto simp: jstream_value.simps[of p] split: if_splits)

lemma array_loop_needs_char: "array_loop ilen p = Inr p' \<Longrightarrow> clast p \<noteq> - 1"
proof -
  assume a: "array_loop ilen p = Inr p'"
  then obtain p2 where "jstream_value (poke p ilen ((peek p ilen + 1) mod 2 ^ 32)) = Inr p2"
    by (cases "jstream_value (poke p ilen ((peek p ilen + 1) mod 2 ^ 32))")
       (simp_all add: array_loop.simps[of ilen p] Let_def)
  from value_needs_char[OF this] show ?thesis by simp
qed

lemma object_loop_needs_char: "object_loop ilen p = Inr p' \<Longrightarrow> clast p \<noteq> - 1"
proof -
  assume a: "object_loop ilen p = Inr p'"
  then obtain p2 where "jstream_value (poke p ilen ((peek p ilen + 1) mod 2 ^ 32)) = Inr p2"
    by (cases "jstream_value (poke p ilen ((peek p ilen + 1) mod 2 ^ 32))")
       (simp_all add: object_loop.simps[of ilen p] Let_def)
  from value_needs_char[OF this] show ?thesis by simp
qed

lemma ascii_frame:
  "frame p q \<Longrightarrow> \<forall>c\<in>set (stream p). 0 \<le> c \<and> c < 128 \<Longrightarrow> \<forall>c\<in>set (stream q). 0 \<le> c \<and> c < 128"
  using frame_stream_set by blast

lemma parser_text:
  "\<forall>p'. jstream_value p = Inr p' \<longrightarrow> (\<forall>c\<in>set (stream p). 0 \<le> c \<and> c < 128) \<longrightarrow>
      (\<exists>r. value_text (clast p # stream p) r \<and> lookahead r p')"
  "\<forall>p'. jstream_array p = Inr p' \<longrightarrow> (\<forall>c\<in>set (stream p). 0 \<le> c \<and> c < 128) \<longrightarrow>
      (\<exists>r. value_text (ch CHR ''['' # stream p) r \<and> lookahead r p')"
  "\<forall>p'. array_loop ilen p = Inr p' \<longrightarrow> (\<forall>c\<in>set (stream p). 0 \<le> c \<and> c < 128) \<longrightarrow>
      (\<exists>r. elements (clast p # stream p) r \<and> lookahead r p')"
  "\<forall>p'. jstream_object p = Inr p' \<longrightarrow> (\<forall>c\<in>set (stream p). 0 \<le> c \<and> c < 128) \<longrightarrow>
      (\<exists>r. value_text (ch CHR ''{'' # stream p) r \<and> lookahead r p')"
  "\<forall>p'. object_loop ilen p = Inr p' \<longrightarrow> (\<forall>c\<in>set (stream p). 0 \<le> c \<and> c < 128) \<longrightarrow>
      (\<exists>r. members (clast p # stream p) r \<and> lookahead r p' \<and> clast p' = ch CHR ''}'')"
proof (induction p and p and ilen p and p and ilen p
    rule: jstream_value_jstream_array_array_loop_jstream_object_object_loop.induct)
  case (1 p)
  show ?case
  proof (intro allI impI)
    fix p' assume a: "jstream_value p = Inr p'" and asc: "\<forall>c\<in>set (stream p). 0 \<le> c \<and> c < 128"
    consider (arr) "clast p = ch CHR ''[''" | (ob) "clast p = ch CHR ''{''"
      | (str) "clast p = ch CHR 0x22"
      | (num) "(ch CHR ''0'' \<le> clast p \<and> clast p \<le> ch CHR ''9'') \<or> clast p = ch CHR ''-''"
      | (f) "clast p = ch CHR ''f''" | (n) "clast p = ch CHR ''n''" | (t) "clast p = ch CHR ''t''"
      using a by (auto simp: jstream_value.simps[of p] split: if_splits)
    then show "\<exists>r. value_text (clast p # stream p) r \<and> lookahead r p'"
    proof cases
      case arr
      with a have "jstream_array p = Inr p'" by (simp add: jstream_value.simps[of p])
      with "1.IH"(1)[OF arr] asc arr show ?thesis by simp
    next
      case ob
      with a have "jstream_object p = Inr p'" by (simp add: jstream_value.simps[of p])
      with "1.IH"(2)[OF _ ob] asc ob show ?thesis by simp
    next
      case str
      with a have "jstream_string p = Inr p'" by (simp add: jstream_value.simps[of p])
      with str show ?thesis by (intro string_text)
    next
      case num
      with a have "jstream_number p = Inr p'"
        by (auto simp: jstream_value.simps[of p])
      with num asc show ?thesis by (intro number_text)
    next
      case f
      with a have "jstream_false p = Inr p'" by (simp add: jstream_value.simps[of p])
      with f show ?thesis by (intro false_text)
    next
      case n
      with a have "jstream_null p = Inr p'" by (simp add: jstream_value.simps[of p])
      with n show ?thesis by (intro null_text)
    next
      case t
      with a have "jstream_true p = Inr p'" by (simp add: jstream_value.simps[of p])
      with t show ?thesis by (intro true_text)
    qed
  qed
next
  case (2 p)
  show ?case
  proof (intro allI impI)
    fix p' assume a: "jstream_array p = Inr p'" and asc: "\<forall>c\<in>set (stream p). 0 \<le> c \<and> c < 128"
    from a obtain objnew p1 where e: "jstream_expand p 2 = Inr (objnew, p1)"
      by (auto simp: jstream_array.simps[of p] split: sum.splits)
    define p3 where "p3 = jstream_next (poke (poke p1 objnew ARRAY) (objnew + 1) 0)"
    from frame_expand[OF e] have f3: "frame p p3" by (simp add: p3_def frame_next')
    have l3: "lookahead (stream p) p3"
      using expand_frame[OF e] by (simp add: p3_def lookahead_next')
    have eq: "jstream_array p =
       (if clast p3 \<noteq> ch CHR '']'' then
          (case array_loop (objnew + 1) p3 of
             Inl e \<Rightarrow> Inl e
           | Inr p4 \<Rightarrow>
               if clast p4 \<noteq> ch CHR '']'' then Inl (ERR_CLOSED_BRACKET, p4)
               else Inr (jstream_next p4))
        else Inr (jstream_next p3))"
      using e by (simp add: jstream_array.simps[of p] Let_def p3_def)
    show "\<exists>r. value_text (ch CHR ''['' # stream p) r \<and> lookahead r p'"
    proof (cases "clast p3 = ch CHR '']''")
      case True
      with a eq have r: "p' = jstream_next p3" by simp
      from lookahead_at[OF l3] True have "blanks (stream p) (ch CHR '']'' # stream p3)" by simp
      then have "value_text (ch CHR ''['' # stream p) (stream p3)"
        by (intro text_array_empty[of _ _ "ch CHR '']''"]) simp_all
      with r show ?thesis by (auto simp: lookahead_next')
    next
      case False
      with a eq obtain p4 where l: "array_loop (objnew + 1) p3 = Inr p4"
        and c4: "clast p4 = ch CHR '']''" and r: "p' = jstream_next p4"
        by (auto split: sum.splits if_splits)
      from "2.IH"[OF e refl refl refl p3_def False] l ascii_frame[OF f3 asc]
      obtain r2 where el: "elements (clast p3 # stream p3) r2" and l4: "lookahead r2 p4"
        by blast
      from lookahead_at[OF l3 array_loop_needs_char[OF l]] have b1: "blanks (stream p) (clast p3 # stream p3)" .
      from lookahead_at[OF l4] c4 have b2: "blanks r2 (ch CHR '']'' # stream p4)" by simp
      from b1 el b2 have "value_text (ch CHR ''['' # stream p) (stream p4)"
        by (intro text_array[of _ _ "clast p3 # stream p3" r2 "ch CHR '']''"]) simp_all
      with r show ?thesis by (auto simp: lookahead_next')
    qed
  qed
next
  case (3 ilen p)
  define p1 where "p1 = poke p ilen ((peek p ilen + 1) mod 2 ^ 32)"
  have eq: "array_loop ilen p =
     (case jstream_value p1 of
        Inl e \<Rightarrow> Inl e
      | Inr p2 \<Rightarrow>
          if clast p2 \<noteq> ch CHR '','' then Inr p2
          else array_loop ilen (jstream_next p2))"
    by (simp add: array_loop.simps[of ilen p] Let_def p1_def)
  show ?case
  proof (intro allI impI)
    fix p' assume a: "array_loop ilen p = Inr p'" and asc: "\<forall>c\<in>set (stream p). 0 \<le> c \<and> c < 128"
    have st: "stream p1 = stream p" "clast p1 = clast p" by (simp_all add: p1_def)
    from a obtain p2 where v: "jstream_value p1 = Inr p2"
      by (cases "jstream_value p1") (simp_all add: eq)
    from "3.IH"(1)[OF p1_def, THEN spec, THEN mp, OF v] asc
    obtain r1 where t1: "value_text (clast p # stream p) r1" and l2: "lookahead r1 p2"
      unfolding st by blast
    from frame_parser(1)[of p1] v have f2: "frame p p2" by (simp add: p1_def)
    show "\<exists>r. elements (clast p # stream p) r \<and> lookahead r p'"
    proof (cases "clast p2 = ch CHR '',''")
      case False
      with a v have "p' = p2" by (simp add: eq)
      with t1 l2 show ?thesis by (auto intro: elements_last)
    next
      case True
      define q where "q = jstream_next p2"
      from a v True have r: "array_loop ilen q = Inr p'" by (simp add: eq q_def)
      have fq: "frame p q" using f2 by (simp add: q_def frame_next')
      have nn: "\<not> clast p2 \<noteq> ch CHR '',''" using True by simp
      from "3.IH"(2)[OF p1_def v nn, folded q_def, THEN spec, THEN mp, THEN mp, OF r ascii_frame[OF fq asc]]
      obtain r3 where el: "elements (clast q # stream q) r3" and l3: "lookahead r3 p'"
        by blast
      from lookahead_at[OF lookahead_next[of p2, folded q_def] array_loop_needs_char[OF r]]
      have b2: "blanks (stream p2) (clast q # stream q)" .
      from lookahead_at[OF l2] True have b1: "blanks r1 (ch CHR '','' # stream p2)" by simp
      have "elements (clast p # stream p) r3"
        by (rule elements_more[OF t1 b1 refl b2 el])
      with l3 show ?thesis by blast
    qed
  qed
next
  case (4 p)
  show ?case
  proof (intro allI impI)
    fix p' assume a: "jstream_object p = Inr p'" and asc: "\<forall>c\<in>set (stream p). 0 \<le> c \<and> c < 128"
    from a obtain objnew p1 where e: "jstream_expand p 2 = Inr (objnew, p1)"
      by (auto simp: jstream_object.simps[of p] split: sum.splits)
    define p3 where "p3 = jstream_next (poke (poke p1 objnew OBJECT) (objnew + 1) 0)"
    from frame_expand[OF e] have f3: "frame p p3" by (simp add: p3_def frame_next')
    have l3: "lookahead (stream p) p3"
      using expand_frame[OF e] by (simp add: p3_def lookahead_next')
    have eq: "jstream_object p =
       (if clast p3 \<noteq> ch CHR ''}'' then
          (case object_loop (objnew + 1) p3 of
             Inl e \<Rightarrow> Inl e
           | Inr p4 \<Rightarrow> Inr (jstream_next p4))
        else Inr (jstream_next p3))"
      using e by (simp add: jstream_object.simps[of p] Let_def p3_def)
    show "\<exists>r. value_text (ch CHR ''{'' # stream p) r \<and> lookahead r p'"
    proof (cases "clast p3 = ch CHR ''}''")
      case True
      with a eq have r: "p' = jstream_next p3" by simp
      from lookahead_at[OF l3] True have "blanks (stream p) (ch CHR ''}'' # stream p3)" by simp
      then have "value_text (ch CHR ''{'' # stream p) (stream p3)"
        by (intro text_object_empty[of _ _ "ch CHR ''}''"]) simp_all
      with r show ?thesis by (auto simp: lookahead_next')
    next
      case False
      with a eq obtain p4 where l: "object_loop (objnew + 1) p3 = Inr p4"
        and r: "p' = jstream_next p4"
        by (auto split: sum.splits if_splits)
      from "4.IH"[OF e refl refl refl p3_def False] l ascii_frame[OF f3 asc]
      obtain r2 where el: "members (clast p3 # stream p3) r2" and l4: "lookahead r2 p4"
        and c4: "clast p4 = ch CHR ''}''"
        by blast
      from lookahead_at[OF l3 object_loop_needs_char[OF l]] have b1: "blanks (stream p) (clast p3 # stream p3)" .
      from lookahead_at[OF l4] c4 have b2: "blanks r2 (ch CHR ''}'' # stream p4)" by simp
      from b1 el b2 have "value_text (ch CHR ''{'' # stream p) (stream p4)"
        by (intro text_object[of _ _ "clast p3 # stream p3" r2 "ch CHR ''}''"]) simp_all
      with r show ?thesis by (auto simp: lookahead_next')
    qed
  qed
next
  case (5 ilen p)
  define p1 where "p1 = poke p ilen ((peek p ilen + 1) mod 2 ^ 32)"
  have eq: "object_loop ilen p =
     (case jstream_value p1 of
        Inl e \<Rightarrow> Inl e
      | Inr p2 \<Rightarrow>
          if clast p2 \<noteq> ch CHR '':'' then Inl (ERR_COLON, p2)
          else (case jstream_value (jstream_next p2) of
                  Inl e \<Rightarrow> Inl e
                | Inr p3 \<Rightarrow>
                    if clast p3 = ch CHR ''}'' then Inr p3
                    else if clast p3 \<noteq> ch CHR '','' then Inl (ERR_COMMA, p3)
                    else object_loop ilen (jstream_next p3)))"
    by (simp add: object_loop.simps[of ilen p] Let_def p1_def)
  show ?case
  proof (intro allI impI)
    fix p' assume a: "object_loop ilen p = Inr p'" and asc: "\<forall>c\<in>set (stream p). 0 \<le> c \<and> c < 128"
    have st: "stream p1 = stream p" "clast p1 = clast p" by (simp_all add: p1_def)
    from a obtain p2 where v: "jstream_value p1 = Inr p2"
      by (cases "jstream_value p1") (simp_all add: eq)
    from a v have c2: "clast p2 = ch CHR '':''"
      by (cases "clast p2 = ch CHR '':''") (simp_all add: eq)
    define q where "q = jstream_next p2"
    from a v c2 obtain p3 where v2: "jstream_value q = Inr p3"
      by (cases "jstream_value q") (simp_all add: eq q_def)
    from "5.IH"(1)[OF p1_def, THEN spec, THEN mp, OF v] asc
    obtain r1 where t1: "value_text (clast p # stream p) r1" and l2: "lookahead r1 p2"
      unfolding st by blast
    from frame_parser(1)[of p1] v have f2: "frame p p2" by (simp add: p1_def)
    have fq: "frame p q" using f2 by (simp add: q_def frame_next')
    have nn: "\<not> clast p2 \<noteq> ch CHR '':''" using c2 by simp
    from "5.IH"(2)[OF p1_def v nn, folded q_def, THEN spec, THEN mp, THEN mp, OF v2 ascii_frame[OF fq asc]]
    obtain r4 where t2: "value_text (clast q # stream q) r4" and l3: "lookahead r4 p3"
      by blast
    from frame_parser(1)[of q] v2 fq have f3: "frame p p3" by (auto intro: frame_trans)
    from lookahead_at[OF l2] c2 have b1: "blanks r1 (ch CHR '':'' # stream p2)" by simp
    from lookahead_at[OF lookahead_next[of p2, folded q_def] value_needs_char[OF v2]]
    have b2: "blanks (stream p2) (clast q # stream q)" .
    show "\<exists>r. members (clast p # stream p) r \<and> lookahead r p' \<and> clast p' = ch CHR ''}''"
    proof (cases "clast p3 = ch CHR ''}''")
      case True
      with a v c2 v2 have "p' = p3" by (simp add: eq q_def)
      moreover have "members (clast p # stream p) r4"
        by (rule members_last[OF t1 b1 refl b2 t2])
      ultimately show ?thesis using l3 True by blast
    next
      case False
      define q2 where "q2 = jstream_next p3"
      from a v c2 v2 False have c3: "clast p3 = ch CHR '',''"
        by (cases "clast p3 = ch CHR '',''") (simp_all add: eq q_def)
      with a v c2 v2 False have r: "object_loop ilen q2 = Inr p'"
        by (simp add: eq q_def q2_def)
      have fq2: "frame p q2" using f3 by (simp add: q2_def frame_next')
      have nn3: "\<not> clast p3 \<noteq> ch CHR '',''" using c3 by simp
      from "5.IH"(3)[OF p1_def v nn v2[unfolded q_def] False nn3, folded q2_def,
          THEN spec, THEN mp, THEN mp, OF r ascii_frame[OF fq2 asc]]
      obtain r7 where m: "members (clast q2 # stream q2) r7" and l7: "lookahead r7 p'"
        and c7: "clast p' = ch CHR ''}''"
        by blast
      from lookahead_at[OF lookahead_next[of p3, folded q2_def] object_loop_needs_char[OF r]]
      have b4: "blanks (stream p3) (clast q2 # stream q2)" .
      from lookahead_at[OF l3] c3 have b3: "blanks r4 (ch CHR '','' # stream p3)" by simp
      have "members (clast p # stream p) r7"
        by (rule members_more[OF t1 b1 refl b2 t2 b3 refl b4 m])
      with l7 c7 show ?thesis by blast
    qed
  qed
qed

lemma run_array_comma:
  "(case jstream_value ((reading ''true , 1 ] ,x'')\<lparr>clast := ch CHR ''[''\<rparr>) of
      Inr q \<Rightarrow> clast q = ch CHR '','' \<and> stream q = map of_char ''x''
    | Inl e \<Rightarrow> False)"
  by code_simp



section \<open>Words and bytes of the block\<close>

definition words :: "jstream_param_s \<Rightarrow> nat list" where
  "words p = (case obj p of None \<Rightarrow> [] | Some blk \<Rightarrow> blk)"

lemma held_words: "held p = length (words p)"
  by (simp add: held_def words_def split: option.splits)

lemma words_poke [simp]: "words (poke q i w) = (words q)[i := w]"
  by (cases "obj q") (simp_all add: words_def poke_def)

lemma words_poke_bytes [simp]: "words (poke_bytes q i bs) = store_bytes (words q) i bs"
  by (cases "obj q") (simp_all add: words_def poke_bytes_def store_bytes_def)

lemma words_clast [simp]: "words (q\<lparr>clast := c\<rparr>) = words q"
  by (simp add: words_def)

lemma words_stream [simp]: "words (q\<lparr>stream := c\<rparr>) = words q"
  by (simp add: words_def)

lemma size_poke [simp]: "size_w (poke q i w) = size_w q" "size_w (poke_bytes q i bs) = size_w q"
  "strtod_val (poke q i w) = strtod_val q" "strtod_val (poke_bytes q i bs) = strtod_val q"
  "allocs (poke q i w) = allocs q" "allocs (poke_bytes q i bs) = allocs q"
  by (simp_all add: poke_def poke_bytes_def)

lemma peek_words: "words p \<noteq> [] \<Longrightarrow> peek p i = words p ! i"
  by (auto simp: peek_def words_def split: option.splits)

lemma expand_words:
  assumes "jstream_expand p n = Inr (off, q)" and "size_w p = held p"
    and "held p + n < 2 ^ 32"
  shows "\<exists>w. words q = words p @ replicate n w" and "off = held p" and "size_w q = held q"
proof -
  show "\<exists>w. words q = words p @ replicate n w"
    using assms
    by (cases p rule: alloc_outcome_cases; cases "obj p")
       (auto simp: jstream_expand_def malloc_def realloc_def Let_def words_def held_def)
  show "off = held p"
    using assms
    by (cases p rule: alloc_outcome_cases; cases "obj p")
       (auto simp: jstream_expand_def malloc_def realloc_def Let_def words_def held_def)
  show "size_w q = held q"
    using assms
    by (cases p rule: alloc_outcome_cases; cases "obj p")
       (auto simp: jstream_expand_def malloc_def realloc_def Let_def words_def held_def)
qed

lemma bytes_of_append [simp]: "bytes_of (xs @ ys) = bytes_of xs @ bytes_of ys"
  by (simp add: bytes_of_def)

lemma bytes_of_Cons: "bytes_of (w # ws) = unpack4 w @ bytes_of ws"
  by (simp add: bytes_of_def)

lemma bytes_of_Nil [simp]: "bytes_of [] = []"
  by (simp add: bytes_of_def)

lemma byte_mod: "x < 256 \<Longrightarrow> (x + 256 * k) mod 256 = (x::nat)"
  by simp

lemma byte_div: "x < 256 \<Longrightarrow> (x + 256 * k) div 256 = (k::nat)"
  by simp

lemma div_65536: "x div 65536 = x div 256 div (256::nat)"
  using div_mult2_eq[of x 256 256] by simp

lemma div_16777216: "x div 16777216 = x div 256 div 256 div (256::nat)"
  using div_mult2_eq[of x 65536 256] by (simp add: div_65536)

lemma unpack4_pack:
  assumes "a < 256" "b < 256" "c < 256" "d < 256"
  shows "unpack4 (a + 256 * b + 65536 * c + 16777216 * d) = [a, b, c, d]"
proof -
  have e: "a + 256 * b + 65536 * c + 16777216 * d = a + 256 * (b + 256 * (c + 256 * d))"
    by simp
  show ?thesis
    unfolding e unpack4_def div_65536 div_16777216
    using assms by (simp only: byte_mod byte_div mod_less)
qed

lemma bytes_of_words_of:
  "length bs mod 4 = 0 \<Longrightarrow> \<forall>b\<in>set bs. b < 256 \<Longrightarrow> bytes_of (words_of bs) = bs"
proof (induction bs rule: words_of.induct)
  case (1 a b c d bs)
  then show ?case by (simp add: bytes_of_Cons unpack4_pack)
qed simp_all

lemma bytes_of_less: "b \<in> set (bytes_of ws) \<Longrightarrow> b < 256"
  by (induction ws) (auto simp: bytes_of_Cons unpack4_def)

lemma store_bytes_append:
  assumes "length bs \<le> 4 * length ys"
  shows "store_bytes (xs @ ys) (length xs) bs = xs @ words_of (bs @ drop (length bs) (bytes_of ys))"
proof -
  have "length (words_of (bs @ drop (length bs) (bytes_of ys))) = length ys"
    using assms by (simp add: length_words_of)
  then show ?thesis by (simp add: store_bytes_def)
qed

text \<open>Writing bytes into words just added to the block: the payload and the bytes left over.\<close>

lemma store_fresh:
  assumes "length bs \<le> 4 * n" and "\<forall>b\<in>set bs. b < 256"
  shows "\<exists>W pad. store_bytes (xs @ replicate n w) (length xs) bs = xs @ W \<and>
           bytes_of W = bs @ pad \<and> length W = n \<and> length bs + length pad = 4 * n"
proof -
  define pad where "pad = drop (length bs) (bytes_of (replicate n w))"
  define W where "W = words_of (bs @ pad)"
  have l: "length (bs @ pad) = 4 * n" using assms(1) by (simp add: pad_def)
  have "\<forall>b\<in>set (bs @ pad). b < 256"
    using assms(2) by (auto simp: pad_def dest: in_set_dropD bytes_of_less)
  with l have "bytes_of W = bs @ pad" unfolding W_def by (intro bytes_of_words_of) simp_all
  moreover have "length W = n" using l by (simp add: W_def length_words_of)
  moreover have "store_bytes (xs @ replicate n w) (length xs) bs = xs @ W"
    using assms(1) by (simp add: store_bytes_append W_def pad_def)
  ultimately show ?thesis using l by auto
qed

section \<open>What the scanning loops change\<close>

lemma get_changes: "get p = (c, q) \<Longrightarrow> \<exists>s. q = p\<lparr>stream := s\<rparr>"
  by (auto simp: get_def split: list.splits intro: exI[of _ "stream p"])

lemma next_changes: "\<exists>s c. jstream_next p = p\<lparr>stream := s, clast := c\<rparr>"
proof (induction p rule: jstream_next.induct)
  case (1 p)
  show ?case
  proof (cases "stream p")
    case Nil
    then have "jstream_next p = p\<lparr>stream := [], clast := - 1\<rparr>" by (simp add: jstream_next_eof)
    then show ?thesis by blast
  next
    case (Cons c cs)
    show ?thesis
    proof (cases "strchr ws_chars c")
      case False
      with Cons show ?thesis by (auto simp: jstream_next_stop)
    next
      case True
      from Cons have g: "get p = (c, p\<lparr>stream := cs\<rparr>)" by (simp add: get_def)
      from "1.IH"[OF g[symmetric] refl True]
      obtain s d where "jstream_next (p\<lparr>stream := cs\<rparr>) = p\<lparr>stream := s, clast := d\<rparr>" by auto
      with Cons True show ?thesis by (auto simp: jstream_next_ws)
    qed
  qed
qed

lemma changes_keep:
  assumes "p' = p\<lparr>stream := s, clast := c\<rparr>"
  shows "obj p' = obj p" "size_w p' = size_w p" "words p' = words p" "held p' = held p"
    "strtod_val p' = strtod_val p" "allocs p' = allocs p"
  using assms by (simp_all add: words_def held_def)

lemma next_keeps [simp]:
  "obj (jstream_next p) = obj p" "size_w (jstream_next p) = size_w p"
  "words (jstream_next p) = words p" "held (jstream_next p) = held p"
  "strtod_val (jstream_next p) = strtod_val p" "allocs (jstream_next p) = allocs p"
proof -
  from next_changes[of p] obtain s c where "jstream_next p = p\<lparr>stream := s, clast := c\<rparr>"
    by blast
  note k = changes_keep[OF this]
  show "obj (jstream_next p) = obj p" "size_w (jstream_next p) = size_w p"
    "words (jstream_next p) = words p" "held (jstream_next p) = held p"
    "strtod_val (jstream_next p) = strtod_val p" "allocs (jstream_next p) = allocs p"
    by (rule k)+
qed

lemma number_scan_changes:
  "number_scan i buf p = (i', buf', p') \<Longrightarrow> \<exists>s c. p' = p\<lparr>stream := s, clast := c\<rparr>"
proof (induction i buf p rule: number_scan.induct)
  case (1 i buf p)
  show ?case
  proof (cases "i < 128")
    case False
    with "1.prems" number_scan.simps[of i buf p] have "p' = p\<lparr>stream := stream p, clast := clast p\<rparr>"
      by simp
    then show ?thesis by blast
  next
    case True
    obtain c p1 where g: "get p = (c, p1)" by (cases "get p")
    from get_changes[OF g] obtain s1 where gc: "p1 = p\<lparr>stream := s1\<rparr>" by blast
    show ?thesis
    proof (cases "strchr num_chars (of_schar (to_char c))")
      case False
      with "1.prems" True g number_scan.simps[of i buf p]
      have "p' = p1\<lparr>clast := of_schar (to_char c)\<rparr>" by (simp add: Let_def)
      with gc show ?thesis by auto
    next
      case sc: True
      with "1.prems" True g number_scan.simps[of i buf p]
      have r: "number_scan (i + 1) (buf @ [to_char c]) p1 = (i', buf', p')"
        by (simp add: Let_def)
      from "1.IH"[OF True g[symmetric] refl _ r] sc
      obtain s d where "p' = p1\<lparr>stream := s, clast := d\<rparr>" by auto
      with gc show ?thesis by auto
    qed
  qed
qed

lemma string_scan_changes:
  "string_scan j buf p = Inr (j', buf', p') \<Longrightarrow>
     (\<exists>s c. p' = p\<lparr>stream := s, clast := c\<rparr>) \<and> (j' < 64 \<longrightarrow> clast p' = 34) \<and>
     (j \<le> 64 \<longrightarrow> j' \<le> 64)"
proof (induction j buf p rule: string_scan.induct)
  case (1 j buf p)
  show ?case
  proof (cases "j < 64")
    case False
    with "1.prems" string_scan.simps[of j buf p]
    have "p' = p\<lparr>stream := stream p, clast := clast p\<rparr>" "j' = j" by simp_all
    with False show ?thesis by blast
  next
    case True
    obtain c p1 where g: "get p = (c, p1)" by (cases "get p")
    from get_changes[OF g] obtain s1 where gc: "p1 = p\<lparr>stream := s1\<rparr>" by blast
    show ?thesis
    proof (cases "c = 34 \<or> c < 0")
      case stop: True
      with "1.prems" True g string_scan.simps[of j buf p]
      have r: "c = 34" "p' = p1\<lparr>clast := c\<rparr>" "j' = j"
        by (auto simp: Let_def split: if_splits)
      with gc True show ?thesis by auto
    next
      case False
      with "1.prems" True g string_scan.simps[of j buf p]
      have r: "string_scan (j + 1) (buf @ [to_char c]) (p1\<lparr>clast := c\<rparr>) = Inr (j', buf', p')"
        by (simp add: Let_def)
      from "1.IH"[OF True g[symmetric] refl _ _ r] False
      obtain s d where ih: "p' = p1\<lparr>clast := c\<rparr>\<lparr>stream := s, clast := d\<rparr>"
        "j' < 64 \<longrightarrow> clast p' = 34" "j + 1 \<le> 64 \<longrightarrow> j' \<le> 64" by auto
      from ih(1) gc have "p' = p\<lparr>stream := s, clast := d\<rparr>" by simp
      with ih(2,3) True show ?thesis by auto
    qed
  qed
qed

lemma align_bounds: "jstream_align (m + 1) \<le> m + 1" "m \<le> 4 * jstream_align m"
  "4 * jstream_align m < m + 4"
  by (simp_all add: jstream_align_def) presburger+

text \<open>
  What the rounds of the loop of \<^verbatim>\<open>jstream_string\<close> have done when the double quote is
  met: the body read so far has gone to the block in chunks of 64 bytes, and the bytes of the
  last round are in \<open>buf\<close>.
\<close>

lemma string_loop_words:
  assumes "string_loop p = Inr (buf, p')" and "size_w p = held p"
    and "held p + length (stream p) < 2 ^ 32"
  shows "\<exists>body k W. stream p = body @ 34 # stream p' \<and> (\<forall>c\<in>set body. c \<noteq> 34 \<and> 0 \<le> c) \<and>
           length buf < 64 \<and> length body = 64 * k + length buf \<and>
           buf = map to_char (drop (64 * k) body) \<and>
           words p' = words p @ W \<and> bytes_of W = map to_char (take (64 * k) body) \<and>
           size_w p' = held p' \<and> clast p' = 34 \<and> strtod_val p' = strtod_val p"
  using assms
proof (induction p rule: string_loop.induct)
  case (1 p)
  from "1.prems"(1) string_loop.simps[of p]
  obtain j b p1 where sc: "string_scan 0 [] p = Inr (j, b, p1)"
    by (auto split: sum.splits)
  from string_scan_split[OF sc]
  obtain cs where cs: "\<forall>c\<in>set cs. c \<noteq> 34 \<and> 0 \<le> c" "b = map to_char cs" "j = length cs"
    "stream p = cs @ (if j < 64 then 34 # stream p1 else stream p1)"
    by auto
  from string_scan_changes[OF sc]
  obtain s1 c1 where ch: "p1 = p\<lparr>stream := s1, clast := c1\<rparr>" "j < 64 \<longrightarrow> clast p1 = 34"
    "j \<le> 64" by auto
  note k1 = changes_keep[OF ch(1)]
  show ?case
  proof (cases "j < 64")
    case True
    with "1.prems"(1) sc string_loop.simps[of p] have r: "p' = p1" "buf = b" by simp_all
    from cs True r ch(2) k1 "1.prems"(2) show ?thesis
      by (intro exI[of _ cs] exI[of _ 0] exI[of _ "[]"]) simp
  next
    case False
    with "1.prems"(1) sc string_loop.simps[of p]
    obtain objnew p2 where e: "jstream_expand p1 16 = Inr (objnew, p2)"
      and r: "string_loop (poke_bytes p2 objnew b) = Inr (buf, p')"
      by (auto split: sum.splits)
    from ch(3) cs(3,4) False have j: "length cs = 64" "stream p = cs @ stream p1"
      by simp_all
    then have j64: "length cs = 64" by simp
    have h1: "size_w p1 = held p1" "held p1 + 16 < 2 ^ 32"
      using k1 "1.prems"(2,3) j by simp_all
    from expand_words[OF e h1]
    obtain w where w: "words p2 = words p1 @ replicate 16 w" "objnew = held p1" "size_w p2 = held p2"
      by blast
    note f2 = expand_frame[OF e]
    define p3 where "p3 = poke_bytes p2 objnew b"
    have "length b \<le> 4 * 16" "\<forall>x\<in>set b. x < 256" using cs(2) j64 by simp_all
    from store_fresh[OF this, of "words p1" w]
    obtain W1 pad where W1: "store_bytes (words p1 @ replicate 16 w) (length (words p1)) b = words p1 @ W1"
      "bytes_of W1 = b @ pad" "length b + length pad = 4 * 16"
      by blast
    from W1(3) cs(2) j64 have "pad = []" by simp
    with W1 w have w3: "words p3 = words p @ W1" "bytes_of W1 = b"
      by (simp_all add: p3_def held_words k1)
    have s3: "stream p3 = stream p1" "strtod_val p3 = strtod_val p" "size_w p3 = held p3"
      using f2 w(3) k1 by (simp_all add: p3_def)
    have "held p3 = held p + 16" using w3 W1(2,3) \<open>pad = []\<close> length_bytes_of[of W1]
      by (simp add: held_words)
    with j "1.prems"(3) s3 have b3: "held p3 + length (stream p3) < 2 ^ 32" by simp
    from "1.IH"[OF sc refl refl False e refl, folded p3_def, OF r[folded p3_def] s3(3) b3]
    obtain body k W where ih: "stream p3 = body @ 34 # stream p'" "\<forall>c\<in>set body. c \<noteq> 34 \<and> 0 \<le> c"
      "length buf < 64" "length body = 64 * k + length buf" "buf = map to_char (drop (64 * k) body)"
      "words p' = words p3 @ W" "bytes_of W = map to_char (take (64 * k) body)"
      "size_w p' = held p'" "clast p' = 34" "strtod_val p' = strtod_val p3"
      by blast
    show ?thesis
    proof (intro exI[of _ "cs @ body"] exI[of _ "Suc k"] exI[of _ "W1 @ W"] conjI)
      show "stream p = (cs @ body) @ 34 # stream p'" using j ih(1) s3 by simp
      show "\<forall>c\<in>set (cs @ body). c \<noteq> 34 \<and> 0 \<le> c" using cs(1) ih(2) by auto
      show "length buf < 64" by (rule ih(3))
      show "length (cs @ body) = 64 * Suc k + length buf" using j64 ih(4) by simp
      show "buf = map to_char (drop (64 * Suc k) (cs @ body))" using j64 ih(5) by simp
      show "words p' = words p @ W1 @ W" using ih(6) w3 by simp
      show "bytes_of (W1 @ W) = map to_char (take (64 * Suc k) (cs @ body))"
        using w3(2) ih(7) cs(2) j64 by simp
      show "size_w p' = held p'" by (rule ih(8))
      show "clast p' = 34" by (rule ih(9))
      show "strtod_val p' = strtod_val p" using ih(10) s3 by simp
    qed
  qed
qed

lemma set_cstr: "set (cstr bs) \<subseteq> set bs"
  by (auto simp: cstr_def dest: set_takeWhileD)

text \<open>
  The bytes \<^verbatim>\<open>jstream_string\<close> stores for a body: the full chunks of 64 bytes as they are
  (\<^verbatim>\<open>memcpy\<close>), the rest up to its first NUL (\<^verbatim>\<open>strcpy\<close>).
\<close>

definition string_bytes :: "int list \<Rightarrow> nat list" where
  "string_bytes body =
     (let n = 64 * (length body div 64)
      in map to_char (take n body) @ cstr (map to_char (drop n body)))"

lemma string_bytes_verbatim:
  "\<forall>c\<in>set body. to_char c \<noteq> 0 \<Longrightarrow> string_bytes body = map to_char body"
proof -
  assume a: "\<forall>c\<in>set body. to_char c \<noteq> 0"
  define n where "n = 64 * (length body div 64)"
  from a have "0 \<notin> set (map to_char (drop n body))"
    using set_drop_subset[of n body] by fastforce
  then have "cstr (map to_char (drop n body)) = map to_char (drop n body)" by (rule cstr_id)
  then have "string_bytes body = map to_char (take n body) @ map to_char (drop n body)"
    unfolding string_bytes_def Let_def n_def[symmetric] by simp
  also have "\<dots> = map to_char (take n body @ drop n body)" by (simp only: map_append)
  also have "\<dots> = map to_char body" by (simp only: append_take_drop_id)
  finally show ?thesis .
qed

lemma string_words:
  assumes "jstream_string p = Inr p'" and "size_w p = held p"
    and "held p + length (stream p) + 2 < 2 ^ 32"
  shows "\<exists>body W pad q. stream p = body @ 34 # stream q \<and> (\<forall>c\<in>set body. c \<noteq> 34 \<and> 0 \<le> c) \<and>
           p' = jstream_next q \<and> clast q = 34 \<and> words q = words p @ STRING # W \<and>
           bytes_of W = string_bytes body @ 0 # pad \<and> length pad < 4 \<and>
           size_w q = held q \<and> strtod_val q = strtod_val p"
proof -
  from assms(1) obtain objnew p1 where e1: "jstream_expand p 1 = Inr (objnew, p1)"
    by (auto simp: jstream_string_def split: sum.splits)
  define pa where "pa = poke p1 objnew STRING"
  from assms(1) e1 obtain buf p2 where l: "string_loop pa = Inr (buf, p2)"
    by (auto simp: jstream_string_def pa_def split: sum.splits)
  define n where "n = jstream_align (length (cstr buf) + 1)"
  from assms(1) e1 l obtain objnew2 p3 where
    e2: "jstream_expand p2 n = Inr (objnew2, p3)"
    and r: "p' = jstream_next (poke_bytes p3 objnew2 (cstr buf @ [0]))"
    by (auto simp: jstream_string_def Let_def pa_def n_def split: sum.splits)
  define q where "q = poke_bytes p3 objnew2 (cstr buf @ [0])"
  from assms(3) have "held p + 1 < 2 ^ 32" by simp
  from expand_words[OF e1 assms(2) this]
  obtain w where w1: "words p1 = words p @ replicate 1 w" "objnew = held p" "size_w p1 = held p1"
    by blast
  note f1 = expand_frame[OF e1]
  have wa: "words pa = words p @ [STRING]" using w1 by (simp add: pa_def held_words)
  have sa: "size_w pa = held pa" "stream pa = stream p" "strtod_val pa = strtod_val p"
    using w1(3) f1 by (simp_all add: pa_def)
  have ha: "held pa = held p + 1" using wa by (simp add: held_words)
  with assms(3) sa have "held pa + length (stream pa) < 2 ^ 32" by simp
  from string_loop_words[OF l sa(1) this]
  obtain body k W0 where b: "stream pa = body @ 34 # stream p2" "\<forall>c\<in>set body. c \<noteq> 34 \<and> 0 \<le> c"
    "length buf < 64" "length body = 64 * k + length buf" "buf = map to_char (drop (64 * k) body)"
    "words p2 = words pa @ W0" "bytes_of W0 = map to_char (take (64 * k) body)"
    "size_w p2 = held p2" "clast p2 = 34" "strtod_val p2 = strtod_val pa"
    by blast
  have k: "64 * k = 64 * (length body div 64)" using b(3,4) by simp
  have l0: "4 * length W0 = 64 * k" using b(4,7) length_bytes_of[of W0] by simp
  have lc: "length (cstr buf) \<le> length buf" by (simp add: cstr_def length_takeWhile_le)
  have n1: "n \<le> length (cstr buf) + 1" "length (cstr buf) + 1 \<le> 4 * n" "4 * n < length (cstr buf) + 1 + 4"
    unfolding n_def by (rule align_bounds)+
  have h2: "held p2 = held p + 1 + length W0" using b(6) wa by (simp add: held_words)
  have "length (stream p) = length body + 1 + length (stream p2)" using b(1) sa by simp
  with h2 l0 n1 lc b(4) assms(3) have "held p2 + n < 2 ^ 32" by simp
  from expand_words[OF e2 b(8) this]
  obtain w2 where w3: "words p3 = words p2 @ replicate n w2" "objnew2 = held p2" "size_w p3 = held p3"
    by blast
  note f2 = expand_frame[OF e2]
  have "\<forall>x\<in>set (cstr buf @ [0]). x < 256"
    using set_cstr[of buf] b(5) by auto
  moreover have "length (cstr buf @ [0]) \<le> 4 * n" using n1 by simp
  ultimately obtain W2 pad where W2:
    "store_bytes (words p2 @ replicate n w2) (length (words p2)) (cstr buf @ [0]) = words p2 @ W2"
    "bytes_of W2 = (cstr buf @ [0]) @ pad" "length (cstr buf @ [0]) + length pad = 4 * n"
    using store_fresh[of "cstr buf @ [0]" n "words p2" w2] by blast
  have wq: "words q = words p @ STRING # (W0 @ W2)"
    using W2(1) w3 b(6) wa by (simp add: q_def held_words)
  have bq: "bytes_of (W0 @ W2) = string_bytes body @ 0 # pad"
    using W2(2) b(5,7) k by (simp add: string_bytes_def Let_def)
  have lp: "length pad < 4" using W2(3) n1 by simp
  have sq: "stream q = stream p2" "clast q = 34" "size_w q = held q" "strtod_val q = strtod_val p"
    using f2 b(9,10) w3(3) sa by (simp_all add: q_def)
  from b(1,2) sa(2) sq r wq bq lp show ?thesis
    by (intro exI[of _ body] exI[of _ "W0 @ W2"] exI[of _ pad] exI[of _ q]) (simp add: q_def)
qed

section \<open>The string handler\<close>

text \<open>The end of the input, or a negative value, comes before any double quote.\<close>

definition eos_before_quote :: "int list \<Rightarrow> bool" where
  "eos_before_quote cs =
     (case dropWhile (\<lambda>c. c \<noteq> ch CHR 0x22 \<and> 0 \<le> c) cs of [] \<Rightarrow> True | c # _ \<Rightarrow> c < 0)"

lemma eos_before_quote_append:
  "\<forall>c\<in>set cs. c \<noteq> 34 \<and> 0 \<le> c \<Longrightarrow> eos_before_quote (cs @ r) = eos_before_quote r"
  by (simp add: eos_before_quote_def dropWhile_append2)

lemma eos_before_quote_simps [simp]:
  "eos_before_quote []" "\<not> eos_before_quote (34 # r)" "c < 0 \<Longrightarrow> eos_before_quote (c # r)"
  by (simp_all add: eos_before_quote_def)

lemma expand_never_fails:
  assumes "None \<notin> set (allocs p)"
  shows "\<exists>off q. jstream_expand p n = Inr (off, q) \<and> None \<notin> set (allocs q)"
proof (cases "obj p")
  case None
  with assms show ?thesis by (simp add: expand_ok_None notin_set_tl)
next
  case (Some old)
  with assms show ?thesis by (simp add: expand_ok_Some notin_set_tl)
qed

lemma string_scan_fail:
  "string_scan j buf p = Inl (e, p') \<Longrightarrow> e = ERR_EOS_INSIDE_STRING \<and> eos_before_quote (stream p)"
proof (induction j buf p rule: string_scan.induct)
  case (1 j buf p)
  from "1.prems" string_scan.simps[of j buf p] have j: "j < 64" by (cases "j < 64") auto
  obtain c p1 where g: "get p = (c, p1)" by (cases "get p")
  show ?case
  proof (cases "c = 34 \<or> c < 0")
    case True
    with "1.prems" j g string_scan.simps[of j buf p]
    have r: "c < 0" "e = ERR_EOS_INSIDE_STRING"
      by (auto simp: Let_def split: if_splits)
    with g show ?thesis by (cases "stream p") (auto simp: get_def)
  next
    case False
    with "1.prems" j g string_scan.simps[of j buf p]
    have r: "string_scan (j + 1) (buf @ [to_char c]) (p1\<lparr>clast := c\<rparr>) = Inl (e, p')"
      by (simp add: Let_def)
    from "1.IH"[OF j g[symmetric] refl _ _ r] False
    have ih: "e = ERR_EOS_INSIDE_STRING" "eos_before_quote (stream p1)" by auto
    from False g have "stream p = [c] @ stream p1"
      by (auto simp: get_def split: list.splits)
    with ih False eos_before_quote_append[of "[c]" "stream p1"] show ?thesis by simp
  qed
qed

lemma string_loop_fail:
  "string_loop p = Inl (e, p') \<Longrightarrow>
     (e = ERR_MEMORY \<and> None \<in> set (allocs p)) \<or>
     (e = ERR_EOS_INSIDE_STRING \<and> eos_before_quote (stream p))"
proof (induction p rule: string_loop.induct)
  case (1 p)
  show ?case
  proof (cases "string_scan 0 [] p")
    case (Inl a)
    with "1.prems" string_loop.simps[of p] have "string_scan 0 [] p = Inl (e, p')" by simp
    from string_scan_fail[OF this] show ?thesis by simp
  next
    case (Inr b)
    obtain j b1 p1 where b: "b = (j, b1, p1)" by (cases b)
    note sc = Inr[unfolded b]
    from string_scan_split[OF sc]
    obtain cs where cs: "\<forall>c\<in>set cs. c \<noteq> 34 \<and> 0 \<le> c"
      "stream p = cs @ (if j < 64 then 34 # stream p1 else stream p1)"
      by auto
    from string_scan_changes[OF sc]
    obtain s1 c1 where ch: "p1 = p\<lparr>stream := s1, clast := c1\<rparr>" by auto
    note k1 = changes_keep[OF ch]
    from "1.prems" sc string_loop.simps[of p] have j: "\<not> j < 64" by (cases "j < 64") auto
    show ?thesis
    proof (cases "jstream_expand p1 16")
      case (Inl a)
      with "1.prems" sc j string_loop.simps[of p] have "jstream_expand p1 16 = Inl (e, p')" by simp
      moreover from this expand_never_fails[of p1 16] have "None \<in> set (allocs p1)" by auto
      ultimately show ?thesis using frame_expand_fail[of p1 16 e p'] k1 by simp
    next
      case e2: (Inr c)
      obtain off p2 where c: "c = (off, p2)" by (cases c)
      from "1.prems" sc j e2 c string_loop.simps[of p]
      have r: "string_loop (poke_bytes p2 off b1) = Inl (e, p')" by simp
      from "1.IH"[OF sc refl refl j e2[unfolded c] refl r]
      have ih: "(e = ERR_MEMORY \<and> None \<in> set (allocs p2)) \<or>
         (e = ERR_EOS_INSIDE_STRING \<and> eos_before_quote (stream p1))"
        using expand_frame[OF e2[unfolded c]] by simp
      from frame_expand[OF e2[unfolded c]] have "set (allocs p2) \<subseteq> set (allocs p1)"
        by (simp add: frame_def)
      with ih k1 cs j eos_before_quote_append[OF cs(1), of "stream p1"] show ?thesis by auto
    qed
  qed
qed

lemma string_fail:
  assumes "jstream_string p = Inl (e, p')"
  shows "(e = ERR_MEMORY \<and> None \<in> set (allocs p)) \<or>
         (e = ERR_EOS_INSIDE_STRING \<and> eos_before_quote (stream p))"
proof (cases "jstream_expand p 1")
  case (Inl a)
  with assms have e: "jstream_expand p 1 = Inl (e, p')" by (simp add: jstream_string_def)
  moreover from this expand_never_fails[of p 1] have "None \<in> set (allocs p)" by auto
  ultimately show ?thesis using frame_expand_fail[of p 1 e p'] by simp
next
  case (Inr b)
  obtain off p1 where b: "b = (off, p1)" by (cases b)
  note e1 = Inr[unfolded b]
  from frame_expand[OF e1] have a1: "set (allocs p1) \<subseteq> set (allocs p)" by (simp add: frame_def)
  define pa where "pa = poke p1 off STRING"
  have sa: "stream pa = stream p" "allocs pa = allocs p1"
    using expand_frame[OF e1] by (simp_all add: pa_def)
  show ?thesis
  proof (cases "string_loop pa")
    case (Inl a)
    with assms e1 have "string_loop pa = Inl (e, p')" by (simp add: jstream_string_def pa_def)
    from string_loop_fail[OF this] sa a1 show ?thesis by auto
  next
    case l: (Inr c)
    obtain buf p2 where c: "c = (buf, p2)" by (cases c)
    from frame_string_loop[of pa buf p2] l c have a2: "set (allocs p2) \<subseteq> set (allocs pa)"
      by (simp add: frame_def)
    from assms e1 l c
    have e2: "jstream_expand p2 (jstream_align (length (cstr buf) + 1)) = Inl (e, p')"
      by (cases "jstream_expand p2 (jstream_align (length (cstr buf) + 1))")
         (auto simp: jstream_string_def pa_def Let_def)
    moreover from this expand_never_fails[of p2 "jstream_align (length (cstr buf) + 1)"]
    have "None \<in> set (allocs p2)" by auto
    ultimately show ?thesis using frame_expand_fail[OF e2] a2 a1 sa by auto
  qed
qed

lemma characters_split:
  "characters cs r \<Longrightarrow> \<exists>body. cs = body @ 34 # r \<and> (\<forall>c\<in>set body. c \<noteq> 34 \<and> 0 \<le> c)"
proof (induction rule: characters.induct)
  case (characters_quote c r)
  then show ?case by (intro exI[of _ "[]"]) simp
next
  case (characters_more c cs r)
  then obtain body where "cs = body @ 34 # r" "\<forall>c\<in>set body. c \<noteq> 34 \<and> 0 \<le> c" by blast
  with characters_more(1,2) show ?case by (intro exI[of _ "c # body"]) simp
qed

lemma string_success_quote:
  assumes "jstream_string p = Inr p'"
  shows "\<not> eos_before_quote (stream p)"
proof -
  from assms obtain objnew p1 where e1: "jstream_expand p 1 = Inr (objnew, p1)"
    by (auto simp: jstream_string_def split: sum.splits)
  with assms obtain buf p2 where l: "string_loop (poke p1 objnew STRING) = Inr (buf, p2)"
    by (auto simp: jstream_string_def split: sum.splits)
  from string_loop_characters[OF l] expand_frame[OF e1]
  have "characters (stream p) (stream p2)" by simp
  from characters_split[OF this] obtain body where
    "stream p = body @ 34 # stream p2" "\<forall>c\<in>set body. c \<noteq> 34 \<and> 0 \<le> c" by blast
  then show ?thesis by (simp add: eos_before_quote_append)
qed

text \<open>
  The body the claim describes: the characters before the first double quote that no
  backslash precedes, a backslash escaping the character after it.
\<close>

fun claimed_body :: "int list \<Rightarrow> int list option" where
  "claimed_body [] = None"
| "claimed_body [c] = (if c = ch CHR 0x22 then Some [] else None)"
| "claimed_body (c # d # cs) =
     (if c = ch CHR 0x22 then Some []
      else if c = ch CHR 0x5C then map_option (\<lambda>b. c # d # b) (claimed_body cs)
      else map_option (\<lambda>b. c # b) (claimed_body (d # cs)))"

definition escaped_quote :: "jstream_param_s" where
  "escaped_quote = (reading [])\<lparr>clast := ch CHR 0x22,
     stream := [ch CHR ''a'', ch CHR 0x5C, ch CHR 0x22, ch CHR ''b'', ch CHR 0x22, ch CHR '',''],
     allocs := [Some 0xFFFFFFFF, Some 0xFFFFFFFF]\<rparr>"

lemma run_escaped_quote:
  "(case jstream_string escaped_quote of
      Inr p' \<Rightarrow> clast p' = ch CHR ''b'' \<and> stream p' = [ch CHR 0x22, ch CHR '','']
               \<and> obj p' = Some [STRING, 0xFF005C61]
    | Inl e \<Rightarrow> False)"
  by code_simp

lemma run_claimed_body:
  "claimed_body (stream escaped_quote) = Some [ch CHR ''a'', ch CHR 0x5C, ch CHR 0x22, ch CHR ''b'']"
  by code_simp




end
